theory Spec2Isabelle
  imports Complex_Main
begin

section \<open>Strings\<close>

text \<open>
  A JavaScript string is modelled as a \<open>string\<close>: one \<open>char\<close> per code unit, restricted
  to the code units below 256 (Latin-1), where JavaScript and HOL number characters alike.
\<close>

definition isWhiteSpace :: "char \<Rightarrow> bool" where
  \<comment> \<open>ECMAScript WhiteSpace and LineTerminator below 256: TAB, LF, VT, FF, CR, SP, NBSP.\<close>
  "isWhiteSpace c = ((of_char c :: nat) \<in> {9, 10, 11, 12, 13, 32, 160})"

definition trim :: "string \<Rightarrow> string" where
  \<comment> \<open>\<open>String.prototype.trim\<close>\<close>
  "trim s = rev (dropWhile isWhiteSpace (rev (dropWhile isWhiteSpace s)))"

definition toLowerCase_char :: "char \<Rightarrow> char" where
  \<comment> \<open>ASCII \<open>A\<close>..\<open>Z\<close> and the Latin-1 capitals 192..222 (without the multiplication sign 215)\<close>
  "toLowerCase_char c =
     (let n = (of_char c :: nat)
      in if (65 \<le> n \<and> n \<le> 90) \<or> (192 \<le> n \<and> n \<le> 222 \<and> n \<noteq> 215)
         then char_of (n + 32) else c)"

definition toLowerCase :: "string \<Rightarrow> string" where
  "toLowerCase s = map toLowerCase_char s"

definition toUpperCase_char :: "char \<Rightarrow> char" where
  \<comment> \<open>Code units whose upper case lies below 256 and is a single code unit; the others
      (sharp s, micro sign, y with diaeresis) are outside the model and left as they are.\<close>
  "toUpperCase_char c =
     (let n = (of_char c :: nat)
      in if (97 \<le> n \<and> n \<le> 122) \<or> (224 \<le> n \<and> n \<le> 254 \<and> n \<noteq> 247)
         then char_of (n - 32) else c)"

definition toUpperCase :: "string \<Rightarrow> string" where
  "toUpperCase s = map toUpperCase_char s"

fun includes_str :: "string \<Rightarrow> string \<Rightarrow> bool" where
  \<comment> \<open>\<open>s.includes(k)\<close>: \<open>k\<close> starts at some position of \<open>s\<close>\<close>
  "includes_str [] k = (k = [])"
| "includes_str (c # cs) k = (take (length k) (c # cs) = k \<or> includes_str cs k)"

definition isDigit :: "char \<Rightarrow> bool" where
  "isDigit c = (c \<in> set ''0123456789'')"

definition digit_char :: "nat \<Rightarrow> char" where
  "digit_char d = ''0123456789'' ! d"

fun show_nat :: "nat \<Rightarrow> string" where
  \<comment> \<open>the decimal numeral a template literal prints for a natural number\<close>
  "show_nat n = (if n < 10 then [digit_char n] else show_nat (n div 10) @ [digit_char (n mod 10)])"

declare show_nat.simps [simp del]

definition show_int :: "int \<Rightarrow> string" where
  "show_int i = (if i < 0 then ''-'' @ show_nat (nat (- i)) else show_nat (nat i))"

definition truthy :: "string option \<Rightarrow> bool" where
  \<comment> \<open>a \<open>string | null\<close> value in a boolean position: \<open>null\<close> and the empty string are falsy\<close>
  "truthy v = (case v of None \<Rightarrow> False | Some s \<Rightarrow> s \<noteq> [])"

definition or_else :: "string option \<Rightarrow> string \<Rightarrow> string" where
  \<comment> \<open>\<open>v || d\<close> for a \<open>string | null\<close> value\<close>
  "or_else v d = (case v of None \<Rightarrow> d | Some s \<Rightarrow> if s = [] then d else s)"

definition year_or :: "int option \<Rightarrow> int \<Rightarrow> int" where
  \<comment> \<open>\<open>y || d\<close> for a \<open>number | null\<close> year: \<open>null\<close> and \<open>0\<close> are falsy\<close>
  "year_or y d = (case y of None \<Rightarrow> d | Some n \<Rightarrow> if n = 0 then d else n)"

section \<open>Chat service\<close>

text \<open>
  \<^verbatim>\<open>
  const generateTitle = (msg: string): string => {
    const clean = msg.trim();
    return clean.length > 50 ? `${clean.substring(0, 47)}...` : clean || 'New Chat';
  };
  \<close>
  The conditional operator binds weaker than \<open>||\<close>, and the empty string is falsy.
\<close>

definition generateTitle :: "string \<Rightarrow> string" where
  "generateTitle msg =
     (let clean = trim msg
      in if length clean > 50 then take 47 clean @ ''...''
         else if clean \<noteq> [] then clean else ''New Chat'')"

datatype role = User | Assistant

record message =
  msg_id :: string
  msg_role :: role
  msg_content :: string
  msg_createdAt :: nat

record chat =
  title :: string
  messages :: "message list"
  updatedAt :: nat

type_synonym database = "string \<rightharpoonup> chat"

datatype db_error = ForeignKeyViolation | RecordNotFound

text \<open>
  \<open>addMessage\<close> runs four statements against the store: it creates the message row,
  and, when the role is \<open>user\<close>, reads the chat back with its messages and sets the title
  if that chat has exactly one message and still the title \<open>New Chat\<close>; it then stamps
  \<open>updatedAt\<close>. The identifier and the creation time of the row are chosen by the
  store and are parameters here. A message row refers to its chat, so creating a message
  for a chat that does not exist is rejected by the store.
\<close>

definition message_create :: "database \<Rightarrow> string \<Rightarrow> message \<Rightarrow> db_error + database" where
  "message_create db chatId m =
     (case db chatId of
        None \<Rightarrow> Inl ForeignKeyViolation
      | Some c \<Rightarrow> Inr (db(chatId \<mapsto> c\<lparr>messages := messages c @ [m]\<rparr>)))"

definition chat_update :: "database \<Rightarrow> string \<Rightarrow> (chat \<Rightarrow> chat) \<Rightarrow> db_error + database" where
  "chat_update db chatId f =
     (case db chatId of
        None \<Rightarrow> Inl RecordNotFound
      | Some c \<Rightarrow> Inr (db(chatId \<mapsto> f c)))"

definition addMessage ::
  "database \<Rightarrow> string \<Rightarrow> role \<Rightarrow> string \<Rightarrow> string \<Rightarrow> nat \<Rightarrow> db_error + (message \<times> database)" where
  "addMessage db chatId r content mid now =
     (let m = \<lparr>msg_id = mid, msg_role = r, msg_content = content, msg_createdAt = now\<rparr>
      in case message_create db chatId m of
           Inl e \<Rightarrow> Inl e
         | Inr db1 \<Rightarrow>
             (case (if r = User
                    then (case db1 chatId of
                            Some c \<Rightarrow>
                              if length (messages c) = 1 \<and> title c = ''New Chat''
                              then chat_update db1 chatId (\<lambda>c. c\<lparr>title := generateTitle content\<rparr>)
                              else Inr db1
                          | None \<Rightarrow> Inr db1)
                    else Inr db1) of
                Inl e \<Rightarrow> Inl e
              | Inr db2 \<Rightarrow>
                  (case chat_update db2 chatId (\<lambda>c. c\<lparr>updatedAt := now\<rparr>) of
                     Inl e \<Rightarrow> Inl e
                   | Inr db3 \<Rightarrow> Inr (m, db3))))"

section \<open>Safety analyzer\<close>

datatype severity = Low | Medium | High | Critical

record SafetyPattern =
  sp_pattern :: string
  risk_level :: severity
  detection_keywords :: "string list"
  prevention_measures :: "string list"
  sp_category :: string

record QuerySafety =
  riskLevel :: severity
  detectedPatterns :: "SafetyPattern list"
  recommendations :: "string list"
  warnings :: "string list"

fun getSeverityScore :: "severity \<Rightarrow> nat" where
  "getSeverityScore Low = 1"
| "getSeverityScore Medium = 2"
| "getSeverityScore High = 3"
| "getSeverityScore Critical = 4"

definition severityMap :: "nat \<Rightarrow> severity option" where
  "severityMap n =
     (if n = 1 then Some Low else if n = 2 then Some Medium
      else if n = 3 then Some High else if n = 4 then Some Critical else None)"

fun maximum :: "nat list \<Rightarrow> nat" where
  \<comment> \<open>\<open>Math.max(...xs)\<close> on scores, which are at least 1\<close>
  "maximum [] = 0"
| "maximum (x # xs) = max x (maximum xs)"

definition calculateOverallRisk :: "SafetyPattern list \<Rightarrow> severity" where
  "calculateOverallRisk patterns =
     (if patterns = [] then Low
      else
        let maxSeverity = maximum (map (\<lambda>p. getSeverityScore (risk_level p)) patterns)
        in case severityMap maxSeverity of Some s \<Rightarrow> s | None \<Rightarrow> Low)"

definition pattern_warning :: "SafetyPattern \<Rightarrow> string list" where
  "pattern_warning p =
     (if risk_level p = Critical
      then [''CRITICAL: Detected high-risk pattern '' @ [CHR 0x22] @ sp_pattern p @ [CHR 0x22]
              @ '' - '' @ sp_category p @ '' risk'']
      else if risk_level p = High
      then [''HIGH RISK: Detected pattern '' @ [CHR 0x22] @ sp_pattern p @ [CHR 0x22]
              @ '' - '' @ sp_category p @ '' risk'']
      else [])"

text \<open>
  The \<open>forEach\<close> over the loaded patterns, with the three arrays it pushes to.
\<close>

fun check_patterns ::
  "string \<Rightarrow> SafetyPattern list \<Rightarrow> SafetyPattern list \<times> string list \<times> string list
     \<Rightarrow> SafetyPattern list \<times> string list \<times> string list" where
  "check_patterns queryText [] acc = acc"
| "check_patterns queryText (p # ps) (detected, recs, warns) =
     (let matches = list_ex (\<lambda>keyword. includes_str queryText (toLowerCase keyword))
                      (detection_keywords p)
      in if matches
         then check_patterns queryText ps
                (detected @ [p], recs @ prevention_measures p, warns @ pattern_warning p)
         else check_patterns queryText ps (detected, recs, warns))"

definition analyzeQuerySafety ::
  "SafetyPattern list \<Rightarrow> string \<Rightarrow> string option \<Rightarrow> QuerySafety" where
  "analyzeQuerySafety safetyPatterns query context =
     (let queryText = toLowerCase (query @ '' '' @ or_else context []);
          (detected, recs, warns) = check_patterns queryText safetyPatterns ([], [], []);
          risk = calculateOverallRisk detected
      in \<lparr>riskLevel = risk, detectedPatterns = detected,
          recommendations = rev (remdups (rev recs)), warnings = warns\<rparr>)"

text \<open>
  ``Occurs as a substring'', for the statements about the analyzer.
\<close>

definition occurs_in :: "string \<Rightarrow> string \<Rightarrow> bool" where
  "occurs_in k s = (\<exists>pre post. s = pre @ k @ post)"

abbreviation sample_pattern :: "string \<Rightarrow> severity \<Rightarrow> SafetyPattern" where
  "sample_pattern k s \<equiv>
     \<lparr>sp_pattern = k, risk_level = s, detection_keywords = [k],
      prevention_measures = [''Review by counsel''], sp_category = ''bias''\<rparr>"

section \<open>Query analysis\<close>

definition isWordChar :: "char option \<Rightarrow> bool" where
  \<comment> \<open>\<open>\w\<close>; the position before the first and after the last character counts as \<open>\W\<close>\<close>
  "isWordChar co =
     (case co of
        None \<Rightarrow> False
      | Some c \<Rightarrow> c \<in> set ''abcdefghijklmnopqrstuvwxyzABCDEFGHIJKLMNOPQRSTUVWXYZ0123456789_'')"

definition first_char :: "string \<Rightarrow> char option" where
  "first_char s = (case s of [] \<Rightarrow> None | c # _ \<Rightarrow> Some c)"

definition word_at :: "string \<Rightarrow> char option \<Rightarrow> string \<Rightarrow> bool" where
  \<comment> \<open>\<open>\bw\b\<close> with the flag \<open>i\<close> matches at the head of \<open>s\<close>, \<open>prev\<close> being the character
      before it; \<open>w\<close> is a non-empty lower-case word\<close>
  "word_at w prev s =
     (let n = length w
      in n \<le> length s \<and> toLowerCase (take n s) = w
         \<and> isWordChar prev \<noteq> isWordChar (first_char s)
         \<and> isWordChar (Some (last (take n s))) \<noteq> isWordChar (first_char (drop n s)))"

fun test_words_from :: "string list \<Rightarrow> char option \<Rightarrow> string \<Rightarrow> bool" where
  "test_words_from ws prev [] = False"
| "test_words_from ws prev (c # cs) =
     (list_ex (\<lambda>w. word_at w prev (c # cs)) ws \<or> test_words_from ws (Some c) cs)"

definition test_words :: "string list \<Rightarrow> string \<Rightarrow> bool" where
  \<comment> \<open>\<^verbatim>\<open>/\b(w1|w2|...)\b/i.test(q)\<close>\<close>
  "test_words ws q = test_words_from ws None q"

function split_ws_from :: "string \<Rightarrow> string \<Rightarrow> string list" where
  "split_ws_from cur [] = [cur]"
| "split_ws_from cur (c # cs) =
     (if isWhiteSpace c then cur # split_ws_from [] (dropWhile isWhiteSpace cs)
      else split_ws_from (cur @ [c]) cs)"
  by pat_completeness auto
termination
  by (relation "measure (\<lambda>(cur, s). length s)")
     (simp_all add: length_dropWhile_le less_Suc_eq_le)

definition split_ws :: "string \<Rightarrow> string list" where
  \<comment> \<open>\<^verbatim>\<open>s.split(/\s+/)\<close>\<close>
  "split_ws s = split_ws_from [] s"

record QueryAnalysis =
  caseCount :: nat
  searchVariations :: nat

definition analyzeQuery :: "string \<Rightarrow> QueryAnalysis" where
  "analyzeQuery q =
     (let words = length (split_ws (trim q));
          hasRecent = test_words [''recent'', ''latest'', ''new'', ''current'', ''2024'', ''2025''] q;
          hasCompare = test_words [''compar'', ''versus'', ''vs'', ''difference'', ''better''] q;
          hasComprehensive = test_words [''comprehensive'', ''detailed'', ''thorough'', ''deep dive''] q;
          caseCount0 = 15;
          caseCount1 = (if hasRecent then 20 else caseCount0);
          caseCount2 = (if hasCompare then 25 else caseCount1);
          caseCount3 = (if hasComprehensive then 30 else caseCount2);
          caseCount4 = (if words \<le> 3 then 10 else caseCount3);
          searchVariations0 = 1;
          searchVariations1 = (if hasRecent \<or> hasCompare then 2 else searchVariations0);
          searchVariations2 = (if hasComprehensive then 3 else searchVariations1)
      in \<lparr>caseCount = caseCount4, searchVariations = searchVariations2\<rparr>)"

definition buildSearchQueries :: "string \<Rightarrow> nat \<Rightarrow> string list" where
  "buildSearchQueries q variations =
     [q] @ (if variations \<ge> 2 then [q @ '' case law''] else [])
         @ (if variations \<ge> 3 then [q @ '' precedent''] else [])"

record PaperQueryAnalysis =
  paperCount :: nat
  paperSearchVariations :: nat

definition analyzeQuery_papers :: "string \<Rightarrow> PaperQueryAnalysis" where
  "analyzeQuery_papers q =
     (let words = length (split_ws (trim q));
          hasLatest = test_words [''latest'', ''recent'', ''new'', ''current'', ''2024'', ''2025''] q;
          hasCompare = test_words [''compar'', ''versus'', ''vs'', ''difference'', ''better''] q;
          hasDeep = test_words [''comprehensive'', ''detailed'', ''thorough'', ''deep dive''] q;
          paperCount0 = 20;
          paperCount1 = (if hasLatest then 30 else paperCount0);
          paperCount2 = (if hasCompare then 35 else paperCount1);
          paperCount3 = (if hasDeep then 40 else paperCount2);
          paperCount4 = (if words \<le> 3 then 15 else paperCount3);
          searchVariations0 = 1;
          searchVariations1 = (if hasLatest \<or> hasCompare then 2 else searchVariations0);
          searchVariations2 = (if hasDeep then 3 else searchVariations1)
      in \<lparr>paperCount = paperCount4, paperSearchVariations = searchVariations2\<rparr>)"

definition buildSearchQueries_papers :: "string \<Rightarrow> nat \<Rightarrow> string list" where
  "buildSearchQueries_papers q variations =
     [q] @ (if variations \<ge> 2 then [q @ '' methods''] else [])
         @ (if variations \<ge> 3 then [q @ '' applications''] else [])"

section \<open>Selection: dedupe, score, diversify\<close>

subsection \<open>Legal route\<close>

record LegalCase =
  caseId :: string
  case_title :: string
  summary :: "string option"
  court :: "string option"
  case_year :: "int option"
  citation :: "string option"
  case_url :: "string option"
  jurisdiction :: "string option"
  areaOfLaw :: "string option"

text \<open>
  \<open>dedupe\<close> filters the list through a set of the identifiers seen so far.
\<close>

fun dedupe_from :: "string set \<Rightarrow> LegalCase list \<Rightarrow> LegalCase list" where
  "dedupe_from seen [] = []"
| "dedupe_from seen (c # cs) =
     (if caseId c \<in> seen then dedupe_from seen cs
      else c # dedupe_from (insert (caseId c) seen) cs)"

definition dedupe :: "LegalCase list \<Rightarrow> LegalCase list" where
  "dedupe cases = dedupe_from {} cases"

definition topCourts :: "string list" where
  "topCourts = [''U.S. Supreme Court'', ''U.S. Court of Appeals'', ''U.S. District Court'',
                ''State Supreme Court'']"

definition scoreCourt :: "string option \<Rightarrow> real" where
  "scoreCourt c =
     (if \<not> truthy c then 0.3
      else if list_ex (\<lambda>tc. includes_str (the c) tc) topCourts then 1.0 else 0.5)"

text \<open>
  Scores are JavaScript doubles; they are read here as the real numbers the expressions
  denote. \<open>new Date().getFullYear()\<close> is the parameter \<open>thisYear\<close>. In
  \<^verbatim>\<open>c.summary?.length || 0 > 100 ? 1.0 : 0.5\<close> the comparison binds tighter than \<open>||\<close>, so
  the test is whether the summary has a non-zero length.
\<close>

definition scoreCase :: "int \<Rightarrow> LegalCase \<Rightarrow> real" where
  "scoreCase thisYear c =
     (let yr = year_or (case_year c) 1900;
          age = thisYear - yr;
          recScore = exp (- real_of_int age / 20);
          courtScore = scoreCourt (court c);
          summaryScore = (if truthy (summary c) then 1.0 else 0.5)
      in 0.40 * recScore + 0.35 * courtScore + 0.25 * summaryScore)"

text \<open>
  \<open>selectDiverse\<close> sorts a copy of the scored list by descending score (the sort is
  stable) and walks it, keeping the cases selected so far, the set of their courts and a
  count per year. The count against the court cap compares the stored \<open>court\<close> field of
  the selected cases with the court of the candidate after its default was applied.
\<close>

fun selectDiverse_loop ::
  "nat \<Rightarrow> LegalCase list \<Rightarrow> string set \<Rightarrow> (int \<rightharpoonup> nat) \<Rightarrow> LegalCase list \<Rightarrow> LegalCase list" where
  "selectDiverse_loop target selected courts years [] = selected"
| "selectDiverse_loop target selected courts years (legalCase # rest) =
     (if length selected \<ge> target then selected
      else
        let crt = or_else (court legalCase) ''Unknown'';
            yr = year_or (case_year legalCase) 0;
            yCount = (case years yr of None \<Rightarrow> 0 | Some n \<Rightarrow> n)
        in if crt \<in> courts \<and> length (filter (\<lambda>c. court c = Some crt) selected) \<ge> 2
           then selectDiverse_loop target selected courts years rest
           else if yCount \<ge> 3
           then selectDiverse_loop target selected courts years rest
           else selectDiverse_loop target (selected @ [legalCase]) (insert crt courts)
                  (years(yr \<mapsto> yCount + 1)) rest)"

definition selectDiverse :: "(LegalCase \<times> real) list \<Rightarrow> nat \<Rightarrow> LegalCase list" where
  "selectDiverse scored target =
     selectDiverse_loop target [] {} Map.empty (map fst (sort_key (\<lambda>s. - snd s) scored))"

text \<open>
  \<open>selectOptimal\<close> is given the scoring function, so that what is proved of it holds
  for \<open>scoreCase\<close> however its doubles round.
\<close>

definition selectOptimal :: "(LegalCase \<Rightarrow> real) \<Rightarrow> LegalCase list \<Rightarrow> nat \<Rightarrow> LegalCase list" where
  "selectOptimal score cases target =
     (let unique = dedupe cases;
          scored = map (\<lambda>c. (c, score c)) unique
      in selectDiverse scored (min target 20))"

subsection \<open>Paper route\<close>

record Author =
  name :: string

record Paper =
  paperId :: string
  paper_title :: string
  abstract :: "string option"
  authors :: "Author list"
  paper_year :: "int option"
  citationCount :: nat
  venue :: "string option"
  paper_url :: "string option"
  tldr :: "string option"

fun dedupe_papers_from :: "string set \<Rightarrow> Paper list \<Rightarrow> Paper list" where
  "dedupe_papers_from seen [] = []"
| "dedupe_papers_from seen (p # ps) =
     (if paperId p \<in> seen then dedupe_papers_from seen ps
      else p # dedupe_papers_from (insert (paperId p) seen) ps)"

definition dedupe_papers :: "Paper list \<Rightarrow> Paper list" where
  "dedupe_papers papers = dedupe_papers_from {} papers"

definition topVenues :: "string list" where
  "topVenues = [''NeurIPS'', ''ICML'', ''ICLR'', ''ACL'', ''EMNLP'', ''CVPR'', ''ICCV'', ''Nature'',
                ''Science'', ''Cell'', ''PNAS'', ''JMLR'']"

definition scoreVenue :: "string option \<Rightarrow> real" where
  "scoreVenue v =
     (if \<not> truthy v then 0.3
      else if list_ex (\<lambda>tv. includes_str (toUpperCase (the v)) tv) topVenues then 1.0 else 0.5)"

definition scorePaper :: "int \<Rightarrow> Paper \<Rightarrow> real" where
  "scorePaper thisYear p =
     (let citScore = log 10 (real ((if citationCount p = 0 then 1 else citationCount p) + 1)) / 4;
          age = thisYear - year_or (paper_year p) 2000;
          recScore = exp (- real_of_int age / 5);
          venScore = scoreVenue (venue p);
          absScore = (if tldr p \<noteq> None then 1.0
                      else if (case abstract p of None \<Rightarrow> 0 | Some a \<Rightarrow> length a) > 200 then 0.7
                      else 0.3)
      in 0.30 * citScore + 0.25 * recScore + 0.25 * venScore + 0.20 * absScore)"

definition firstAuthor :: "Paper \<Rightarrow> string option" where
  \<comment> \<open>\<open>paper.authors[0]?.name\<close>\<close>
  "firstAuthor p = (case authors p of [] \<Rightarrow> None | a # _ \<Rightarrow> Some (name a))"

fun selectDiverse_papers_loop ::
  "nat \<Rightarrow> Paper list \<Rightarrow> string set \<Rightarrow> (int \<rightharpoonup> nat) \<Rightarrow> Paper list \<Rightarrow> Paper list" where
  "selectDiverse_papers_loop target selected auths years [] = selected"
| "selectDiverse_papers_loop target selected auths years (paper # rest) =
     (if length selected \<ge> target then selected
      else
        let author = firstAuthor paper;
            yr = year_or (paper_year paper) 0;
            yCount = (case years yr of None \<Rightarrow> 0 | Some n \<Rightarrow> n)
        in if truthy author \<and> the author \<in> auths
              \<and> length (filter (\<lambda>p. firstAuthor p = author) selected) \<ge> 2
           then selectDiverse_papers_loop target selected auths years rest
           else if yCount \<ge> 5
           then selectDiverse_papers_loop target selected auths years rest
           else selectDiverse_papers_loop target (selected @ [paper])
                  (if truthy author then insert (the author) auths else auths)
                  (years(yr \<mapsto> yCount + 1)) rest)"

definition selectDiverse_papers :: "(Paper \<times> real) list \<Rightarrow> nat \<Rightarrow> Paper list" where
  "selectDiverse_papers scored target =
     selectDiverse_papers_loop target [] {} Map.empty (map fst (sort_key (\<lambda>s. - snd s) scored))"

definition selectOptimal_papers :: "(Paper \<Rightarrow> real) \<Rightarrow> Paper list \<Rightarrow> nat \<Rightarrow> Paper list" where
  "selectOptimal_papers score papers target =
     (let unique = dedupe_papers papers;
          scored = map (\<lambda>p. (p, score p)) unique
      in selectDiverse_papers scored (min target 25))"

section \<open>Citations\<close>

datatype citation_type = CaseCitation | Statute | Regulation | Academic

record Citation =
  cit_id :: string
  cit_title :: string
  cit_authors :: "string list"
  cit_year :: "int option"
  cit_journal :: "string option"
  cit_url :: "string option"
  cit_volume :: "string option"
  cit_page :: "string option"
  cit_reporter :: "string option"
  cit_court :: "string option"
  citationType :: "citation_type option"

record CitationToken =
  key :: string
  tok_citation :: Citation
  inText :: string
  reference :: string
  tok_summary :: string

subsection \<open>The formatter\<close>

lemma length_dropWhile_less [termination_simp]:
  "length (dropWhile P xs) < Suc (length xs)"
  by (simp add: length_dropWhile_le less_Suc_eq_le)

text \<open>
  \<^verbatim>\<open>caseName.replace(/\s+v\.\s+/gi, ' v. ')\<close>: a run of white space, a \<open>v\<close> of either case,
  a dot and another run of white space become \<open> v. \<close>; the scan resumes after the match.
\<close>

function replace_versus :: "string \<Rightarrow> string" where
  "replace_versus [] = []"
| "replace_versus (c # cs) =
     (if isWhiteSpace c then
        (case dropWhile isWhiteSpace cs of
           v # d # w # r \<Rightarrow>
             if (v = CHR ''v'' \<or> v = CHR ''V'') \<and> d = CHR ''.'' \<and> isWhiteSpace w
             then '' v. '' @ replace_versus (dropWhile isWhiteSpace r)
             else c # replace_versus cs
         | _ \<Rightarrow> c # replace_versus cs)
      else c # replace_versus cs)"
  by pat_completeness auto
termination
proof (relation "measure length", goal_cases)
  case (5 c cs v vs d ds w r)
  have "length (dropWhile isWhiteSpace cs) \<le> length cs"
    by (rule length_dropWhile_le)
  moreover have "length (dropWhile isWhiteSpace cs) = 3 + length r"
    using 5 by simp
  moreover have "length (dropWhile isWhiteSpace r) \<le> length r"
    by (rule length_dropWhile_le)
  ultimately show ?case by simp
qed simp_all

definition formatCaseName :: "string \<Rightarrow> string" where
  "formatCaseName caseName = trim (replace_versus caseName)"

definition year_text :: "int option \<Rightarrow> string" where
  \<comment> \<open>\<open>citation.year || ''\<close> inside a template literal\<close>
  "year_text y = (case y of None \<Rightarrow> [] | Some n \<Rightarrow> if n = 0 then [] else show_int n)"

definition formatLegalCitation :: "Citation \<Rightarrow> string" where
  "formatLegalCitation c =
     (let caseName = formatCaseName (cit_title c);
          volume = or_else (cit_volume c) [];
          reporter = or_else (cit_journal c) [];
          page = or_else (cit_page c) [];
          yr = year_text (cit_year c)
      in if reporter \<noteq> [] \<and> volume \<noteq> [] \<and> page \<noteq> []
         then caseName @ '', '' @ volume @ '' '' @ reporter @ '' '' @ page @ '' ('' @ yr @ '')''
         else caseName @ '' ('' @ yr @ '')'')"

definition formatInTextCitation :: "Citation \<Rightarrow> string" where
  "formatInTextCitation c =
     (let caseName = formatCaseName (cit_title c);
          yr = year_text (cit_year c)
      in if yr \<noteq> [] then caseName @ '' ('' @ yr @ '')'' else caseName)"

fun collapse_ws :: "string \<Rightarrow> string" where
  \<comment> \<open>\<^verbatim>\<open>.replace(/\s+/g, ' ')\<close>\<close>
  "collapse_ws [] = []"
| "collapse_ws (c # cs) =
     (if isWhiteSpace c then CHR '' '' # collapse_ws (dropWhile isWhiteSpace cs)
      else c # collapse_ws cs)"

fun join :: "string \<Rightarrow> string list \<Rightarrow> string" where
  \<comment> \<open>\<open>xs.join(sep)\<close>\<close>
  "join sep [] = []"
| "join sep [x] = x"
| "join sep (x # y # ys) = x @ sep @ join sep (y # ys)"

definition formatReferenceAPA :: "Citation \<Rightarrow> string" where
  "formatReferenceAPA c =
     (if truthy (cit_journal c)
         \<and> (includes_str (the (cit_journal c)) ''F.'' \<or> includes_str (the (cit_journal c)) ''U.S.''
              \<or> includes_str (the (cit_journal c)) ''S.Ct.'')
      then formatLegalCitation c
      else
        let auths = join '', '' (cit_authors c);
            yr = (if year_text (cit_year c) \<noteq> [] then ''('' @ year_text (cit_year c) @ '')''
                  else ''(n.d.)'');
            ttl = trim (cit_title c);
            ven = (if truthy (cit_journal c) then '' '' @ the (cit_journal c) @ ''.'' else [])
        in trim (collapse_ws (auths @ '' '' @ yr @ ''. '' @ ttl @ ''.'' @ ven)))"

subsection \<open>Citation tokens\<close>

definition case_citation :: "LegalCase \<Rightarrow> Citation" where
  "case_citation c =
     \<lparr>cit_id = caseId c, cit_title = case_title c,
      cit_authors = [or_else (court c) ''Unknown Court''],
      cit_year = case_year c, cit_journal = citation c, cit_url = case_url c,
      cit_volume = None, cit_page = None, cit_reporter = None,
      cit_court = court c, citationType = Some CaseCitation\<rparr>"

definition citation_key :: "nat \<Rightarrow> string" where
  \<comment> \<open>\<^verbatim>\<open>`C${i + 1}`\<close> for the index \<open>i\<close>\<close>
  "citation_key i = CHR ''C'' # show_nat (i + 1)"

definition prepareCitations :: "LegalCase list \<Rightarrow> CitationToken list" where
  "prepareCitations cases =
     map (\<lambda>(i, c).
            let cit = case_citation c
            in \<lparr>key = citation_key i, tok_citation = cit,
                inText = formatInTextCitation cit, reference = formatReferenceAPA cit,
                tok_summary = or_else (summary c) ''No summary available.''\<rparr>)
         (enumerate 0 cases)"

definition paper_citation :: "Paper \<Rightarrow> Citation" where
  "paper_citation p =
     \<lparr>cit_id = paperId p, cit_title = paper_title p,
      cit_authors = map name (authors p),
      cit_year = paper_year p, cit_journal = venue p, cit_url = paper_url p,
      cit_volume = None, cit_page = None, cit_reporter = None,
      cit_court = None, citationType = None\<rparr>"

definition prepareCitations_papers :: "Paper list \<Rightarrow> CitationToken list" where
  "prepareCitations_papers papers =
     map (\<lambda>(i, p).
            let cit = paper_citation p
            in \<lparr>key = citation_key i, tok_citation = cit,
                inText = formatInTextCitation cit, reference = formatReferenceAPA cit,
                tok_summary =
                  (case tldr p of
                     Some t \<Rightarrow> t
                   | None \<Rightarrow> (case abstract p of
                                Some a \<Rightarrow> take 400 a
                              | None \<Rightarrow> ''No abstract available.''))\<rparr>)
         (enumerate 0 papers)"

section \<open>Citation tokens in the generated text\<close>

text \<open>
  \<^verbatim>\<open>text.replace(/\[\[C(\d+)\]\]/g, callback)\<close> finds the matches of the pattern from left to
  right, each search starting where the previous match ended, calls the callback on every
  match in that order and joins the results with the text between the matches. The model
  has the three steps apart: \<open>scan_tokens\<close> cuts the text into the characters outside
  the matches and the matches, each with its captured digits; \<open>renumber\<close> is the callback
  run over them with its map and its counter; \<open>render\<close> joins the pieces.
\<close>

datatype segment = Lit char | Tok string

definition match_token :: "string \<Rightarrow> (string \<times> string) option" where
  "match_token s =
     (case s of
        a # b # c # r \<Rightarrow>
          if a = CHR ''['' \<and> b = CHR ''['' \<and> c = CHR ''C'' then
            (case dropWhile isDigit r of
               x # y # rest \<Rightarrow>
                 if takeWhile isDigit r \<noteq> [] \<and> x = CHR '']'' \<and> y = CHR '']''
                 then Some (takeWhile isDigit r, rest) else None
             | _ \<Rightarrow> None)
          else None
      | _ \<Rightarrow> None)"

lemma match_token_shorter:
  "match_token s = Some (ds, rest) \<Longrightarrow> length rest < length s"
proof -
  assume a: "match_token s = Some (ds, rest)"
  then obtain r where s: "s = CHR ''['' # CHR ''['' # CHR ''C'' # r"
    by (auto simp: match_token_def split: list.splits if_splits)
  with a obtain x y where "dropWhile isDigit r = x # y # rest"
    by (auto simp: match_token_def split: list.splits if_splits)
  then have "length rest < length (dropWhile isDigit r)" by simp
  also have "\<dots> \<le> length r" by (rule length_dropWhile_le)
  finally show ?thesis using s by simp
qed

function scan_tokens :: "string \<Rightarrow> segment list" where
  "scan_tokens [] = []"
| "scan_tokens (c # cs) =
     (case match_token (c # cs) of
        Some (ds, rest) \<Rightarrow> Tok ds # scan_tokens rest
      | None \<Rightarrow> Lit c # scan_tokens cs)"
  by pat_completeness auto
termination
  by (relation "measure length") (auto dest: match_token_shorter)

fun renumber :: "(string \<rightharpoonup> nat) \<Rightarrow> nat \<Rightarrow> segment list \<Rightarrow> segment list" where
  "renumber citationMap citationCounter [] = []"
| "renumber citationMap citationCounter (Lit c # segs) =
     Lit c # renumber citationMap citationCounter segs"
| "renumber citationMap citationCounter (Tok originalNum # segs) =
     (let k = CHR ''C'' # originalNum
      in case citationMap k of
           None \<Rightarrow> Tok (show_nat citationCounter)
                     # renumber (citationMap(k \<mapsto> citationCounter)) (citationCounter + 1) segs
         | Some newNum \<Rightarrow> Tok (show_nat newNum) # renumber citationMap citationCounter segs)"

fun render :: "segment list \<Rightarrow> string" where
  "render [] = []"
| "render (Lit c # segs) = c # render segs"
| "render (Tok ds # segs) = ''[[C'' @ ds @ '']]'' @ render segs"

definition deduplicateCitations :: "string \<Rightarrow> string" where
  "deduplicateCitations text = render (renumber Map.empty 1 (scan_tokens text))"

subsection \<open>Notions for stating the renumbering\<close>

text \<open>
  \<open>rank d toks\<close> is one more than the number of distinct tokens before the first \<open>d\<close>
  in \<open>toks\<close>: the position of \<open>d\<close> in order of first appearance, counted from 1.
  \<open>seen_map pre\<close> is the callback's map once the tokens \<open>pre\<close> have gone by, and
  \<open>rewritten g s\<close> is the text \<open>s\<close> with the digits \<open>d\<close> of every token replaced by
  \<open>g d\<close>. \<open>digits_value\<close> is the number that a digit string denotes.
\<close>

fun map_tok :: "(string \<Rightarrow> string) \<Rightarrow> segment \<Rightarrow> segment" where
  "map_tok g (Lit c) = Lit c"
| "map_tok g (Tok d) = Tok (g d)"

fun tokens_of :: "segment list \<Rightarrow> string list" where
  "tokens_of [] = []"
| "tokens_of (Lit c # segs) = tokens_of segs"
| "tokens_of (Tok d # segs) = d # tokens_of segs"

fun lit_of :: "segment \<Rightarrow> char option" where
  "lit_of (Lit c) = Some c"
| "lit_of (Tok d) = None"

definition rank :: "string \<Rightarrow> string list \<Rightarrow> nat" where
  "rank d toks = Suc (card (set (takeWhile (\<lambda>y. y \<noteq> d) toks)))"

definition seen_map :: "string list \<Rightarrow> (string \<rightharpoonup> nat)" where
  "seen_map pre =
     (\<lambda>k. case k of
             [] \<Rightarrow> None
           | c # d \<Rightarrow> if c = CHR ''C'' \<and> d \<in> set pre then Some (rank d pre) else None)"

definition rewritten :: "(string \<Rightarrow> string) \<Rightarrow> string \<Rightarrow> string" where
  "rewritten g s = render (map (map_tok g) (scan_tokens s))"

definition digits_value :: "string \<Rightarrow> nat" where
  "digits_value ds = foldl (\<lambda>n c. 10 * n + (of_char c - 48)) 0 ds"

subsection \<open>The stages as the specification words them\<close>

text \<open>
  ``Removes duplicate ids keeping first occurrences'': an element stays exactly when its
  identifier does not occur before it in the list.
\<close>

definition first_occurrences :: "('a \<Rightarrow> string) \<Rightarrow> 'a list \<Rightarrow> 'a list" where
  "first_occurrences ident xs =
     map (\<lambda>i. xs ! i) (filter (\<lambda>i. ident (xs ! i) \<notin> ident ` set (take i xs)) [0..<length xs])"

subsection \<open>Sample data\<close>

abbreviation sample_case :: "string \<Rightarrow> string option \<Rightarrow> int option \<Rightarrow> LegalCase" where
  "sample_case i c y \<equiv>
     \<lparr>caseId = i, case_title = ''Doe v. Roe'', summary = None, court = c, case_year = y,
      citation = None, case_url = None, jurisdiction = None, areaOfLaw = None\<rparr>"

abbreviation sample_paper :: "string \<Rightarrow> string \<Rightarrow> int option \<Rightarrow> Paper" where
  "sample_paper i a y \<equiv>
     \<lparr>paperId = i, paper_title = ''On things'', abstract = None, authors = [\<lparr>name = a\<rparr>],
      paper_year = y, citationCount = 3, venue = None, paper_url = None, tldr = None\<rparr>"

section \<open>External services and the process\<close>

text \<open>
  What a route does beyond computing values is made explicit. A thrown \<open>Error\<close> is a
  value of type \<open>error\<close>; the outcome of an awaited \<open>fetch\<close> is a \<open>fetch_result\<close>; the
  module-level variable \<open>lastRequest\<close>, the clock that \<open>Date.now()\<close> reads and the lines
  written to the console make up the state \<open>proc\<close> of the server process. Time is counted
  in milliseconds and passes only while the code sleeps on a timer. The responses of the
  services are parameters: the code has no influence on them.
\<close>

datatype error = Error (message: string)

datatype 'a fetch_result =
    Fetched 'a         \<comment> \<open>\<open>response.ok\<close>, with the decoded payload\<close>
  | HttpStatus nat     \<comment> \<open>a response whose status is not 2xx\<close>
  | FetchFailed error  \<comment> \<open>\<open>fetch\<close> or the decoding throws\<close>

definition failed :: "'a fetch_result \<Rightarrow> bool" where
  "failed r = (case r of Fetched x \<Rightarrow> False | HttpStatus st \<Rightarrow> True | FetchFailed err \<Rightarrow> True)"

record proc =
  clock :: int
  lastRequest :: int
  console :: "string list"

definition sleep :: "int \<Rightarrow> proc \<Rightarrow> proc" where
  "sleep ms p = p\<lparr>clock := clock p + ms\<rparr>"

definition write_log :: "string \<Rightarrow> proc \<Rightarrow> proc" where
  "write_log line p = p\<lparr>console := console p @ [line]\<rparr>"

definition waitRateLimit :: "int \<Rightarrow> proc \<Rightarrow> proc" where
  "waitRateLimit rateDelay p =
     (let elapsed = clock p - lastRequest p;
          p1 = (if elapsed < rateDelay then sleep (rateDelay - elapsed) p else p)
      in p1\<lparr>lastRequest := clock p1\<rparr>)"

subsection \<open>Paper search\<close>

definition maxRetries :: nat where
  "maxRetries = 3"

text \<open>
  The retry loop of \<open>searchPapers\<close>; \<open>attempt i\<close> is what the \<open>i\<close>-th \<open>fetch\<close> meets. A
  status 429 sleeps and continues, also on the last round, after which the loop ends and
  the function returns the empty list. Any other failure is thrown into the \<open>catch\<close>,
  which rethrows on the last round and sleeps otherwise.
\<close>

function searchPapers_loop ::
  "(nat \<Rightarrow> Paper list fetch_result) \<Rightarrow> nat \<Rightarrow> proc \<Rightarrow> (error + Paper list) \<times> proc" where
  "searchPapers_loop attempt i p =
     (if i < maxRetries then
        (case attempt i of
           Fetched data \<Rightarrow> (Inr data, p)
         | HttpStatus st \<Rightarrow>
             if st = 429 then searchPapers_loop attempt (i + 1) (sleep (1000 * (int i + 1)) p)
             else if i = maxRetries - 1
             then (Inl (Error (''API error: '' @ show_nat st)), p)
             else searchPapers_loop attempt (i + 1) (sleep (1000 * (int i + 1)) p)
         | FetchFailed err \<Rightarrow>
             if i = maxRetries - 1 then (Inl err, p)
             else searchPapers_loop attempt (i + 1) (sleep (1000 * (int i + 1)) p))
      else (Inr [], p))"
  by pat_completeness auto
termination
  by (relation "measure (\<lambda>(attempt, i, p). maxRetries - i)") auto

declare searchPapers_loop.simps [simp del]

definition searchPapers ::
  "string option \<Rightarrow> (string \<Rightarrow> nat \<Rightarrow> nat \<Rightarrow> Paper list fetch_result) \<Rightarrow> string \<Rightarrow> nat \<Rightarrow> proc
     \<Rightarrow> (error + Paper list) \<times> proc" where
  "searchPapers apiKey api query limit p =
     (if \<not> truthy apiKey then (Inl (Error ''SEMANTIC_SCHOLAR_API_KEY missing''), p)
      else searchPapers_loop (api (trim query) limit) 0 (waitRateLimit 1100 p))"

text \<open>
  \<open>Promise.all\<close> fulfils with all the values, in the order of the promises, when every
  promise fulfils, and rejects with the reason of the promise that rejects first.
  \<open>settled\<close> lists the promises in the order in which they settle. The searches of one
  fan-out overlap in time; the model runs them one after the other, which gives each the
  outcome it has in any interleaving.
\<close>

fun run_searches :: "('q \<Rightarrow> proc \<Rightarrow> 'r \<times> proc) \<Rightarrow> 'q list \<Rightarrow> proc \<Rightarrow> 'r list \<times> proc" where
  "run_searches search [] p = ([], p)"
| "run_searches search (q # qs) p =
     (let (r, p1) = search q p;
          (rs, p2) = run_searches search qs p1
      in (r # rs, p2))"

definition rejections :: "nat list \<Rightarrow> (error + 'a) list \<Rightarrow> error list" where
  "rejections settled outcomes =
     concat (map (\<lambda>i. if i < length outcomes
                        then (case outcomes ! i of Inl e \<Rightarrow> [e] | Inr v \<Rightarrow> [])
                        else []) settled)
     @ concat (map (\<lambda>out. case out of Inl e \<Rightarrow> [e] | Inr v \<Rightarrow> []) outcomes)"

definition promise_all :: "nat list \<Rightarrow> (error + 'a) list \<Rightarrow> error + 'a list" where
  "promise_all settled outcomes =
     (case rejections settled outcomes of
        e # rest \<Rightarrow> Inl e
      | [] \<Rightarrow> Inr (concat (map (\<lambda>out. case out of Inl e \<Rightarrow> [] | Inr v \<Rightarrow> [v]) outcomes)))"

definition ceil_div :: "nat \<Rightarrow> nat \<Rightarrow> nat" where
  \<comment> \<open>\<open>Math.ceil(a / b)\<close> for a positive \<open>b\<close>\<close>
  "ceil_div a b = (a + b - 1) div b"

definition multiSearch_papers ::
  "string option \<Rightarrow> (string \<Rightarrow> nat \<Rightarrow> nat \<Rightarrow> Paper list fetch_result) \<Rightarrow> nat list \<Rightarrow> string
     \<Rightarrow> PaperQueryAnalysis \<Rightarrow> proc \<Rightarrow> (error + Paper list) \<times> proc" where
  "multiSearch_papers apiKey api settled q analysis p =
     (let queries = buildSearchQueries_papers q (paperSearchVariations analysis);
          limitPerQuery = ceil_div (paperCount analysis) (length queries);
          (outcomes, p1) = run_searches (\<lambda>query. searchPapers apiKey api query limitPerQuery) queries p
      in (case promise_all settled outcomes of
            Inl e \<Rightarrow> Inl e
          | Inr results \<Rightarrow> Inr (concat results), p1))"

subsection \<open>Case search\<close>

text \<open>
  The payload of a fetched response stands for the cases after the field-by-field
  conversion of the raw results, and for Google Scholar for the entries of the page that
  pass the filters of the parser, in page order.
\<close>

definition give_up :: "string \<Rightarrow> proc \<Rightarrow> LegalCase list \<times> proc" where
  "give_up line p = ([], write_log line p)"

definition searchLegalCases ::
  "string option \<Rightarrow> (string \<Rightarrow> LegalCase list fetch_result) \<Rightarrow> string \<Rightarrow> nat \<Rightarrow> proc
     \<Rightarrow> LegalCase list \<times> proc" where
  "searchLegalCases apiKey api query limit p =
     (let p0 = write_log (''Searching legal cases for query: '' @ query) p;
          no_results = ''No Court Listener API key available - returning empty results''
      in if truthy apiKey then
           (let p1 = waitRateLimit 500 p0
            in case api (trim query) of
                 Fetched results \<Rightarrow>
                   if results \<noteq> []
                   then (take limit results,
                         write_log (''Found '' @ show_nat (length results)
                                      @ '' real cases from Court Listener API'') p1)
                   else give_up no_results p1
               | HttpStatus st \<Rightarrow> give_up no_results p1
               | FetchFailed err \<Rightarrow>
                   give_up no_results
                     (write_log (''Court Listener API failed: '' @ message err) p1))
         else give_up no_results p0)"

definition searchGoogleScholarLegal ::
  "(string \<Rightarrow> LegalCase list fetch_result) \<Rightarrow> string \<Rightarrow> nat \<Rightarrow> proc \<Rightarrow> LegalCase list \<times> proc" where
  "searchGoogleScholarLegal api query limit p =
     (let p0 = write_log (''Searching Google Scholar Legal for query: '' @ query) p;
          no_results = ''Google Scholar Legal search failed - returning empty results'';
          p1 = waitRateLimit 500 p0
      in case api (query @ '' legal case law'') of
           Fetched entries \<Rightarrow>
             if take limit entries \<noteq> []
             then (take limit entries,
                   write_log (''Found '' @ show_nat (length (take limit entries))
                                @ '' legal documents from Google Scholar Legal'') p1)
             else give_up no_results p1
         | HttpStatus st \<Rightarrow> give_up no_results p1
         | FetchFailed err \<Rightarrow>
             give_up no_results
               (write_log (''Google Scholar Legal search failed: '' @ message err) p1))"

definition multiSearch ::
  "string option \<Rightarrow> (string \<Rightarrow> LegalCase list fetch_result) \<Rightarrow> (string \<Rightarrow> LegalCase list fetch_result)
     \<Rightarrow> string \<Rightarrow> QueryAnalysis \<Rightarrow> proc \<Rightarrow> LegalCase list \<times> proc" where
  "multiSearch apiKey courtListener googleScholar q analysis p =
     (let queries = buildSearchQueries q (searchVariations analysis);
          limitPerQuery = ceil_div (caseCount analysis) (length queries);
          (courtListenerResults, p1) =
             run_searches (\<lambda>query. searchLegalCases apiKey courtListener query limitPerQuery)
               queries p;
          (googleScholarResults, p2) =
             searchGoogleScholarLegal googleScholar q (min 10 (caseCount analysis)) p1;
          allResults = concat courtListenerResults @ googleScholarResults
      in (allResults,
          write_log (''Combined results: '' @ show_nat (length (concat courtListenerResults))
                       @ '' from Court Listener, '' @ show_nat (length googleScholarResults)
                       @ '' from Google Scholar Legal'') p2))"

section \<open>Response safety\<close>

text \<open>
  The patterns of \<open>detectPrivacyIssues\<close> are sequences of character classes with
  repetition bounds and word boundaries. \<open>rx_match\<close> takes a repetition as often as the
  bounds allow and falls back to fewer when the rest does not match, as backtracking
  does; \<open>rx_test\<close> tries the start positions from left to right.
\<close>

datatype rx_item = Rep "char \<Rightarrow> bool" nat "nat option" | WordBoundary

fun rx_match :: "rx_item list \<Rightarrow> char option \<Rightarrow> string \<Rightarrow> bool" where
  "rx_match [] prev s = True"
| "rx_match (WordBoundary # items) prev s =
     (if isWordChar prev = isWordChar (first_char s) then False else rx_match items prev s)"
| "rx_match (Rep cls lo hi # items) prev [] = (if lo = 0 then rx_match items prev [] else False)"
| "rx_match (Rep cls lo hi # items) prev (c # cs) =
     (if hi = Some 0 then (if lo = 0 then rx_match items prev (c # cs) else False)
      else if cls c
      then (if rx_match (Rep cls (lo - 1) (map_option (\<lambda>h. h - 1) hi) # items) (Some c) cs
            then True
            else if lo = 0 then rx_match items prev (c # cs) else False)
      else if lo = 0 then rx_match items prev (c # cs) else False)"

fun rx_search :: "rx_item list \<Rightarrow> char option \<Rightarrow> string \<Rightarrow> bool" where
  "rx_search items prev [] = rx_match items prev []"
| "rx_search items prev (c # cs) =
     (if rx_match items prev (c # cs) then True else rx_search items (Some c) cs)"

definition rx_test :: "rx_item list \<Rightarrow> string \<Rightarrow> bool" where
  "rx_test items s = rx_search items None s"

definition isAlnum :: "char \<Rightarrow> bool" where
  "isAlnum c = (c \<in> set ''abcdefghijklmnopqrstuvwxyzABCDEFGHIJKLMNOPQRSTUVWXYZ0123456789'')"

definition exactly :: "nat \<Rightarrow> (char \<Rightarrow> bool) \<Rightarrow> rx_item" where
  "exactly n cls = Rep cls n (Some n)"

definition lit :: "char \<Rightarrow> rx_item" where
  "lit c = Rep (\<lambda>x. x = c) 1 (Some 1)"

definition privacyPatterns :: "rx_item list list" where
  "privacyPatterns =
     [[WordBoundary, exactly 3 isDigit, lit CHR ''-'', exactly 2 isDigit, lit CHR ''-'',
       exactly 4 isDigit, WordBoundary],
      [WordBoundary, exactly 4 isDigit, Rep isWhiteSpace 0 (Some 1), exactly 4 isDigit,
       Rep isWhiteSpace 0 (Some 1), exactly 4 isDigit, Rep isWhiteSpace 0 (Some 1),
       exactly 4 isDigit, WordBoundary],
      [WordBoundary, Rep (\<lambda>c. isAlnum c \<or> c \<in> set ''._%+-'') 1 None, lit CHR ''@'',
       Rep (\<lambda>c. isAlnum c \<or> c \<in> set ''.-'') 1 None, lit CHR ''.'',
       Rep (\<lambda>c. (isAlnum c \<and> \<not> isDigit c) \<or> c = CHR ''|'') 2 None, WordBoundary],
      [WordBoundary, exactly 3 isDigit, lit CHR ''-'', exactly 3 isDigit, lit CHR ''-'',
       exactly 4 isDigit, WordBoundary]]"

definition detectPrivacyIssues :: "string \<Rightarrow> bool" where
  "detectPrivacyIssues txt = list_ex (\<lambda>pat. rx_test pat txt) privacyPatterns"

definition detectBias :: "string \<Rightarrow> bool" where
  "detectBias txt =
     list_ex (\<lambda>indicator. includes_str (toLowerCase txt) indicator)
       [''only'', ''always'', ''never'', ''all'', ''none'', ''every'',
        ''typical'', ''normal'', ''abnormal'', ''unusual'']"

definition detectMisinformation :: "string \<Rightarrow> bool" where
  "detectMisinformation txt =
     list_ex (\<lambda>pat. includes_str (toLowerCase txt) pat)
       [''definitely'', ''certainly'', ''without doubt'', ''guaranteed'',
        ''proven fact'', ''scientific consensus'']"

record ResponseSafety =
  isSafe :: bool
  issues :: "string list"
  suggestions :: "string list"

definition analyzeResponseSafety :: "string \<Rightarrow> ResponseSafety" where
  "analyzeResponseSafety response =
     (let bias = detectBias response;
          misinformation = detectMisinformation response;
          privacy = detectPrivacyIssues response;
          found = (if bias then [''Potential bias detected in response''] else [])
                @ (if misinformation then [''Potential misinformation patterns detected''] else [])
                @ (if privacy then [''Potential privacy concerns detected''] else []);
          advice = (if bias
                    then [''Review response for balanced perspective and diverse viewpoints'']
                    else [])
                 @ (if misinformation
                    then [''Verify all facts and provide source citations''] else [])
                 @ (if privacy then [''Remove or anonymize personal information''] else [])
      in \<lparr>isSafe = (found = []), issues = found, suggestions = advice\<rparr>)"

section \<open>The research endpoints\<close>

text \<open>
  A request is answered with a JSON error or with an event stream. An event carries what
  the handler puts into it; the fixed lead-in of a warning or of a quality note is left to
  the constructor, and \<open>NoCasesFound\<close> is the \<open>error\<close> event with the fixed explanation
  of the legal route. The prompt and the six insight helpers that feed it affect the
  stream only through the text the language model returns, which is a parameter; the
  consumer of the stream is taken to stay connected. A parameter \<open>body\<close> of an endpoint
  is the parsed request, \<open>Inl\<close> when parsing it throws. Of the console the model has the
  lines of the search functions; those of the handlers' own \<open>catch\<close> blocks are left out.
\<close>

datatype event =
    Status string
  | QueryWarning "string list"
  | CitationEvent CitationToken nat
  | TextChunk string
  | ResponseWarning "string list"
  | QualityInfo "string list"
  | ErrorEvent string
  | NoCasesFound
  | Complete

datatype http_response =
    BadRequest string
  | Blocked "string list" "string list"
  | InternalError
  | EventStream "event list"

record services =
  loadedPatterns :: "SafetyPattern list"
  courtListenerKey :: "string option"
  courtListener :: "string \<Rightarrow> LegalCase list fetch_result"
  googleScholar :: "string \<Rightarrow> LegalCase list fetch_result"
  semanticScholarKey :: "string option"
  semanticScholar :: "string \<Rightarrow> nat \<Rightarrow> nat \<Rightarrow> Paper list fetch_result"
  settleOrder :: "nat list"
  openaiKey :: "string option"
  completion :: "error + (string option list \<times> error option)"
  caseScore :: "LegalCase \<Rightarrow> real"
  paperScore :: "Paper \<Rightarrow> real"

definition chunk_contents :: "string option list \<Rightarrow> string list" where
  \<comment> \<open>the chunks whose \<open>content\<close> is truthy\<close>
  "chunk_contents chunks =
     concat (map (\<lambda>c. case c of None \<Rightarrow> [] | Some s \<Rightarrow> if s = [] then [] else [s]) chunks)"

definition citation_events :: "CitationToken list \<Rightarrow> event list" where
  "citation_events tokens = map (\<lambda>(i, t). CitationEvent t (i + 1)) (enumerate 0 tokens)"

definition response_checks :: "string \<Rightarrow> event list" where
  "response_checks fullResponse =
     (let responseValidation = analyzeResponseSafety (deduplicateCitations fullResponse)
      in (if \<not> isSafe responseValidation then [ResponseWarning (issues responseValidation)] else [])
         @ (if suggestions responseValidation \<noteq> []
            then [QualityInfo (suggestions responseValidation)] else []))"

definition generate_legal :: "services \<Rightarrow> event list" where
  "generate_legal env =
     (if \<not> truthy (openaiKey env) then [ErrorEvent ''OPENAI_API_KEY missing'']
      else
        case completion env of
          Inl err \<Rightarrow> [ErrorEvent (message err)]
        | Inr (chunks, failure) \<Rightarrow>
            let contents = chunk_contents chunks;
                fullResponse = concat contents;
                hasContent = (contents \<noteq> [])
            in map TextChunk contents
               @ (case failure of
                    Some err \<Rightarrow> [ErrorEvent (message err)]
                  | None \<Rightarrow>
                      (if hasContent \<and> fullResponse \<noteq> [] then response_checks fullResponse else [])
                      @ (if \<not> hasContent
                         then [TextChunk
                                 ''No response generated. Please try rephrasing your legal question.'']
                         else [])
                      @ [Complete]))"

definition stream_legal :: "services \<Rightarrow> string \<Rightarrow> QuerySafety \<Rightarrow> proc \<Rightarrow> event list \<times> proc" where
  "stream_legal env query safetyAnalysis p =
     (let analysis = analyzeQuery query;
          opening =
            [Status (''Searching '' @ show_nat (caseCount analysis) @ '' legal cases across ''
                       @ show_nat (searchVariations analysis) @ '' queries...'')]
            @ (if warnings safetyAnalysis \<noteq> [] then [QueryWarning (warnings safetyAnalysis)]
               else []);
          (allCases, p1) =
            multiSearch (courtListenerKey env) (courtListener env) (googleScholar env)
              query analysis p
      in if allCases = [] then (opening @ [NoCasesFound], p1)
         else
           let selected = selectOptimal (caseScore env) allCases (caseCount analysis);
               tokens = prepareCitations selected
           in (opening @ citation_events tokens
                 @ [Status (''Analyzing '' @ show_nat (length selected)
                              @ '' relevant legal cases with AI capabilities...''),
                    Status (''Applying emotional intelligence, bias detection, ''
                              @ ''and predictive analytics...'')]
                 @ generate_legal env, p1))"

definition POST :: "services \<Rightarrow> error + string option \<Rightarrow> proc \<Rightarrow> http_response \<times> proc" where
  "POST env body p =
     (case body of
        Inl err \<Rightarrow> (InternalError, p)
      | Inr query \<Rightarrow>
          if \<not> truthy query then (BadRequest ''Query required'', p)
          else
            let safetyAnalysis = analyzeQuerySafety (loadedPatterns env) (the query) None
            in if riskLevel safetyAnalysis = Critical
               then (Blocked (warnings safetyAnalysis) (recommendations safetyAnalysis), p)
               else
                 let (events, p1) = stream_legal env (the query) safetyAnalysis p
                 in (EventStream events, p1))"




subsection \<open>Kinds of events\<close>

fun is_text :: "event \<Rightarrow> bool" where
  "is_text (TextChunk s) = True"
| "is_text e = False"

fun is_query_check :: "event \<Rightarrow> bool" where
  "is_query_check (QueryWarning ws) = True"
| "is_query_check e = False"

fun is_response_check :: "event \<Rightarrow> bool" where
  "is_response_check (ResponseWarning ws) = True"
| "is_response_check (QualityInfo ws) = True"
| "is_response_check e = False"

fun stream_events :: "http_response \<Rightarrow> event list" where
  "stream_events (EventStream events) = events"
| "stream_events r = []"

definition text_or_response_check :: "event \<Rightarrow> bool" where
  "text_or_response_check e = (is_text e \<or> is_response_check e)"

section \<open>The legal route as a state machine\<close>


datatype reply =
    Waited int
  | Found "LegalCase list"
  | Selected "LegalCase list"
  | Prepared "CitationToken list"


abbreviation sample_services :: services where
  "sample_services \<equiv>
     \<lparr>loadedPatterns = [sample_pattern ''fraud'' High],
      courtListenerKey = None,
      courtListener = (\<lambda>q. HttpStatus 500),
      googleScholar = (\<lambda>q. Fetched [sample_case ''g'' None None]),
      semanticScholarKey = Some ''key'',
      semanticScholar = (\<lambda>q l i. HttpStatus 500),
      settleOrder = [0],
      openaiKey = Some ''key'',
      completion = Inr ([Some ''always''], None),
      caseScore = (\<lambda>c. 0),
      paperScore = (\<lambda>p. 0)\<rparr>"

abbreviation sample_proc :: proc where
  "sample_proc \<equiv> \<lparr>clock = 5000, lastRequest = 0, console = []\<rparr>"

section \<open>Properties of the chat service\<close>

lemma generateTitle_length: "length (generateTitle s) \<le> 50"
  by (simp add: generateTitle_def Let_def)

text \<open>
  Claim C10, as the code has it. When the chat exists, \<open>addMessage\<close> succeeds and appends
  the message; the chat's title is derived from the content exactly when the role is
  \<open>user\<close>, the chat then holds exactly one stored message and its title is still
  \<open>New Chat\<close>, and is left alone otherwise. The derived title is \<open>New Chat\<close> when the
  trimmed content is empty, the trimmed content when it has between 1 and 50 characters,
  and otherwise its first 47 characters followed by three dots; it never exceeds 50
  characters.
\<close>

theorem addMessage_title:
  assumes "db chatId = Some c"
  shows "\<exists>m db' c'. addMessage db chatId r content mid now = Inr (m, db')
           \<and> db' chatId = Some c'
           \<and> messages c' = messages c @ [m]
           \<and> title c' = (if r = User \<and> length (messages c') = 1 \<and> title c = ''New Chat''
                         then generateTitle content else title c)
           \<and> generateTitle content =
                (if trim content = [] then ''New Chat''
                 else if length (trim content) \<le> 50 then trim content
                 else take 47 (trim content) @ ''...'')
           \<and> length (generateTitle content) \<le> 50"
  using assms
  by (auto simp: addMessage_def message_create_def chat_update_def generateTitle_def Let_def)

theorem addMessage_title_witness:
  "\<exists>m db' c'. addMessage (Map.empty(''c1'' \<mapsto> \<lparr>title = ''New Chat'', messages = [], updatedAt = 0\<rparr>))
             ''c1'' User '' What is adverse possession? '' ''m1'' 7 = Inr (m, db')
         \<and> db' ''c1'' = Some c' \<and> title c' = ''What is adverse possession?''"
proof -
  have h: "(Map.empty(''c1'' \<mapsto> \<lparr>title = ''New Chat'', messages = [], updatedAt = 0\<rparr>)) ''c1''
             = Some \<lparr>title = ''New Chat'', messages = [], updatedAt = 0\<rparr>"
    by simp
  have g: "generateTitle '' What is adverse possession? '' = ''What is adverse possession?''"
    by (simp add: generateTitle_def trim_def isWhiteSpace_def Let_def)
  from addMessage_title [where db = "Map.empty(''c1'' \<mapsto> \<lparr>title = ''New Chat'', messages = [], updatedAt = 0\<rparr>)"
      and chatId = "''c1''" and c = "\<lparr>title = ''New Chat'', messages = [], updatedAt = 0\<rparr>"
      and r = User and content = "'' What is adverse possession? ''" and mid = "''m1''" and now = 7, OF h]
  obtain m db' c' where
    "addMessage (Map.empty(''c1'' \<mapsto> \<lparr>title = ''New Chat'', messages = [], updatedAt = 0\<rparr>))
             ''c1'' User '' What is adverse possession? '' ''m1'' 7 = Inr (m, db')"
    "db' ''c1'' = Some c'" "messages c' = [] @ [m]"
    "title c' = (if User = User \<and> length (messages c') = 1 \<and> ''New Chat'' = ''New Chat''
                         then generateTitle '' What is adverse possession? '' else ''New Chat'')"
    by auto
  then show ?thesis using g by auto
qed

text \<open>
  The derived title is not always the trimmed content when that has at most 50
  characters: for blank content the trimmed content is empty and the title is
  \<open>New Chat\<close>.
\<close>

theorem generateTitle_blank_counterexample:
  "length (trim ''  '') \<le> 50 \<and> generateTitle ''  '' \<noteq> trim ''  '' \<and> generateTitle ''  '' = ''New Chat''"
  by (simp add: generateTitle_def trim_def isWhiteSpace_def Let_def)

section \<open>Properties of the selection\<close>

subsection \<open>Caps of the diversity selection\<close>

lemma selectDiverse_loop_length:
  "length selected \<le> target \<Longrightarrow>
   length (selectDiverse_loop target selected courts years xs) \<le> target"
  by (induction xs arbitrary: selected courts years) (auto simp: Let_def)

lemma selectDiverse_loop_court:
  assumes "s \<noteq> []"
    and "length (filter (\<lambda>c. court c = Some s) selected) \<le> 2"
    and "\<forall>c\<in>set selected. court c = Some s \<longrightarrow> s \<in> courts"
  shows "length (filter (\<lambda>c. court c = Some s) (selectDiverse_loop target selected courts years xs)) \<le> 2"
  using assms
proof (induction xs arbitrary: selected courts years)
  case Nil
  then show ?case by simp
next
  case (Cons x xs)
  have absent: "s \<notin> courts \<Longrightarrow> filter (\<lambda>c. court c = Some s) selected = []"
    using Cons.prems(3) by (auto simp: filter_empty_conv)
  show ?case
  proof (cases "court x = Some s")
    case True
    then have crt: "or_else (court x) ''Unknown'' = s"
      using Cons.prems(1) by (simp add: or_else_def)
    show ?thesis
      using Cons.prems True crt absent
      by (auto simp: Let_def intro!: Cons.IH)
  next
    case False
    then show ?thesis
      using Cons.prems
      by (auto simp: Let_def intro!: Cons.IH)
  qed
qed

lemma selectDiverse_loop_year:
  assumes "\<forall>y. length (filter (\<lambda>c. year_or (case_year c) 0 = y) selected)
                = (case years y of None \<Rightarrow> 0 | Some n \<Rightarrow> n)"
    and "\<forall>y. length (filter (\<lambda>c. year_or (case_year c) 0 = y) selected) \<le> 3"
  shows "length (filter (\<lambda>c. year_or (case_year c) 0 = y)
           (selectDiverse_loop target selected courts years xs)) \<le> 3"
  using assms
proof (induction xs arbitrary: selected courts years)
  case Nil
  then show ?case by simp
next
  case (Cons x xs)
  show ?case
    using Cons.prems
    apply (simp add: Let_def)
    apply (intro conjI impI Cons.IH)
    apply (auto split: option.splits)
    done
qed


lemma selectDiverse_papers_loop_length:
  "length selected \<le> target \<Longrightarrow>
   length (selectDiverse_papers_loop target selected auths years xs) \<le> target"
  by (induction xs arbitrary: selected auths years) (auto simp: Let_def)

lemma selectDiverse_papers_loop_author:
  assumes "a \<noteq> []"
    and "length (filter (\<lambda>p. firstAuthor p = Some a) selected) \<le> 2"
    and "\<forall>p\<in>set selected. firstAuthor p = Some a \<longrightarrow> a \<in> auths"
  shows "length (filter (\<lambda>p. firstAuthor p = Some a)
           (selectDiverse_papers_loop target selected auths years xs)) \<le> 2"
  using assms
proof (induction xs arbitrary: selected auths years)
  case Nil
  then show ?case by simp
next
  case (Cons x xs)
  have absent: "a \<notin> auths \<Longrightarrow> filter (\<lambda>p. firstAuthor p = Some a) selected = []"
    using Cons.prems(3) by (auto simp: filter_empty_conv)
  show ?case
  proof (cases "firstAuthor x = Some a")
    case True
    then have tr: "truthy (firstAuthor x)"
      using Cons.prems(1) by (simp add: truthy_def)
    show ?thesis
      using Cons.prems True tr absent
      by (auto simp: Let_def intro!: Cons.IH)
  next
    case False
    then show ?thesis
      using Cons.prems
      by (auto simp: Let_def intro!: Cons.IH)
  qed
qed

lemma selectDiverse_papers_loop_year:
  assumes "\<forall>y. length (filter (\<lambda>p. year_or (paper_year p) 0 = y) selected)
                = (case years y of None \<Rightarrow> 0 | Some n \<Rightarrow> n)"
    and "\<forall>y. length (filter (\<lambda>p. year_or (paper_year p) 0 = y) selected) \<le> 5"
  shows "length (filter (\<lambda>p. year_or (paper_year p) 0 = y)
           (selectDiverse_papers_loop target selected auths years xs)) \<le> 5"
  using assms
proof (induction xs arbitrary: selected auths years)
  case Nil
  then show ?case by simp
next
  case (Cons x xs)
  show ?case
    using Cons.prems
    apply (simp add: Let_def)
    apply (intro conjI impI Cons.IH)
    apply (auto split: option.splits)
    done
qed

text \<open>
  Claim C8, as the code has it. For every scored list and target, \<open>selectDiverse\<close> returns
  at most \<open>target\<close> items. In the legal route no non-empty court string is the court of
  more than two selected cases, and no year (a missing year counting as 0) is the year of
  more than three. In the paper route no non-empty first-author name is that of more
  than two selected papers, and no year is the year of more than five. Nothing is said
  here of the cases that carry no court.
\<close>

theorem selectDiverse_caps:
  "length (selectDiverse scored target) \<le> target
   \<and> (s \<noteq> [] \<longrightarrow> length (filter (\<lambda>c. court c = Some s) (selectDiverse scored target)) \<le> 2)
   \<and> length (filter (\<lambda>c. year_or (case_year c) 0 = y) (selectDiverse scored target)) \<le> 3
   \<and> length (selectDiverse_papers pscored ptarget) \<le> ptarget
   \<and> (a \<noteq> [] \<longrightarrow>
        length (filter (\<lambda>p. firstAuthor p = Some a) (selectDiverse_papers pscored ptarget)) \<le> 2)
   \<and> length (filter (\<lambda>p. year_or (paper_year p) 0 = y') (selectDiverse_papers pscored ptarget)) \<le> 5"
  unfolding selectDiverse_def selectDiverse_papers_def
  by (intro conjI impI selectDiverse_loop_length selectDiverse_loop_court selectDiverse_loop_year
        selectDiverse_papers_loop_length selectDiverse_papers_loop_author
        selectDiverse_papers_loop_year) simp_all


theorem selectDiverse_caps_witness:
  "selectDiverse
     [(sample_case ''a'' (Some ''Court A'') (Some 2001), 4),
      (sample_case ''b'' (Some ''Court A'') (Some 2002), 3),
      (sample_case ''c'' (Some ''Court A'') (Some 2003), 2),
      (sample_case ''d'' (Some ''Court B'') (Some 2003), 1)] 3
   = [sample_case ''a'' (Some ''Court A'') (Some 2001),
      sample_case ''b'' (Some ''Court A'') (Some 2002),
      sample_case ''d'' (Some ''Court B'') (Some 2003)]
   \<and> ''Court A'' \<noteq> []
   \<and> length (filter (\<lambda>c. court c = Some ''Court A'')
        (selectDiverse
           [(sample_case ''a'' (Some ''Court A'') (Some 2001), 4),
            (sample_case ''b'' (Some ''Court A'') (Some 2002), 3),
            (sample_case ''c'' (Some ''Court A'') (Some 2003), 2),
            (sample_case ''d'' (Some ''Court B'') (Some 2003), 1)] 3)) \<le> 2"
proof -
  have ne: "''Court A'' \<noteq> []" by simp
  have ev: "selectDiverse
     [(sample_case ''a'' (Some ''Court A'') (Some 2001), 4),
      (sample_case ''b'' (Some ''Court A'') (Some 2002), 3),
      (sample_case ''c'' (Some ''Court A'') (Some 2003), 2),
      (sample_case ''d'' (Some ''Court B'') (Some 2003), 1)] 3
   = [sample_case ''a'' (Some ''Court A'') (Some 2001),
      sample_case ''b'' (Some ''Court A'') (Some 2002),
      sample_case ''d'' (Some ''Court B'') (Some 2003)]"
    by (simp add: selectDiverse_def Let_def or_else_def year_or_def)
  from selectDiverse_caps [where s = "''Court A''" and target = 3 and scored =
     "[(sample_case ''a'' (Some ''Court A'') (Some 2001), 4),
      (sample_case ''b'' (Some ''Court A'') (Some 2002), 3),
      (sample_case ''c'' (Some ''Court A'') (Some 2003), 2),
      (sample_case ''d'' (Some ''Court B'') (Some 2003), 1)]"] ne
  have "length (filter (\<lambda>c. court c = Some ''Court A'')
        (selectDiverse
           [(sample_case ''a'' (Some ''Court A'') (Some 2001), 4),
            (sample_case ''b'' (Some ''Court A'') (Some 2002), 3),
            (sample_case ''c'' (Some ''Court A'') (Some 2003), 2),
            (sample_case ''d'' (Some ''Court B'') (Some 2003), 1)] 3)) \<le> 2"
    by blast
  with ev ne show ?thesis by blast
qed

text \<open>
  The caps do not hold for the names that are missing. Three cases without a court, which
  the loop files under \<open>Unknown\<close>, are all selected: the count against the cap compares
  the stored field with \<open>Unknown\<close> and so never counts them. Three papers whose first
  author has the empty name are all selected as well: the guard on the author skips the cap
  for a falsy name.
\<close>

theorem selectDiverse_unknown_court_counterexample:
  "selectDiverse
     [(sample_case ''a'' None (Some 2001), 3),
      (sample_case ''b'' None (Some 2002), 2),
      (sample_case ''c'' None (Some 2003), 1)] 3
   = [sample_case ''a'' None (Some 2001),
      sample_case ''b'' None (Some 2002),
      sample_case ''c'' None (Some 2003)]
   \<and> or_else (court (sample_case ''a'' None (Some 2001))) ''Unknown'' = ''Unknown''
   \<and> selectDiverse_papers
     [(sample_paper ''p'' [] (Some 2001), 3),
      (sample_paper ''q'' [] (Some 2002), 2),
      (sample_paper ''r'' [] (Some 2003), 1)] 3
   = [sample_paper ''p'' [] (Some 2001),
      sample_paper ''q'' [] (Some 2002),
      sample_paper ''r'' [] (Some 2003)]"
  by (simp add: selectDiverse_def selectDiverse_papers_def Let_def or_else_def year_or_def
      truthy_def firstAuthor_def)

subsection \<open>The pipeline\<close>

lemma keep_first_Cons:
  "map (\<lambda>i. (x # xs) ! i)
       (filter (\<lambda>i. f ((x # xs) ! i) \<notin> S \<union> f ` set (take i (x # xs))) [0..<length (x # xs)])
   = (if f x \<in> S then [] else [x])
     @ map (\<lambda>i. xs ! i)
         (filter (\<lambda>i. f (xs ! i) \<notin> insert (f x) S \<union> f ` set (take i xs)) [0..<length xs])"
proof -
  have upt: "[0..<length (x # xs)] = 0 # map Suc [0..<length xs]"
    by (simp add: upt_conv_Cons map_Suc_upt del: upt_Suc)
  show ?thesis
    unfolding upt by (simp add: filter_map comp_def conj_ac)
qed

lemma dedupe_from_keep_first:
  "dedupe_from seen xs =
     map (\<lambda>i. xs ! i)
       (filter (\<lambda>i. caseId (xs ! i) \<notin> seen \<union> caseId ` set (take i xs)) [0..<length xs])"
proof (induction xs arbitrary: seen)
  case Nil
  then show ?case by simp
next
  case (Cons x xs)
  show ?case
    unfolding keep_first_Cons [where f = caseId and x = x and xs = xs and S = seen]
    by (cases "caseId x \<in> seen") (simp_all add: Cons.IH insert_absorb)
qed

lemma dedupe_first_occurrences: "dedupe cases = first_occurrences caseId cases"
  by (simp add: dedupe_def first_occurrences_def dedupe_from_keep_first)

lemma dedupe_papers_from_keep_first:
  "dedupe_papers_from seen xs =
     map (\<lambda>i. xs ! i)
       (filter (\<lambda>i. paperId (xs ! i) \<notin> seen \<union> paperId ` set (take i xs)) [0..<length xs])"
proof (induction xs arbitrary: seen)
  case Nil
  then show ?case by simp
next
  case (Cons x xs)
  show ?case
    unfolding keep_first_Cons [where f = paperId and x = x and xs = xs and S = seen]
    by (cases "paperId x \<in> seen") (simp_all add: Cons.IH insert_absorb)
qed

lemma dedupe_papers_first_occurrences: "dedupe_papers ps = first_occurrences paperId ps"
  by (simp add: dedupe_papers_def first_occurrences_def dedupe_papers_from_keep_first)

lemma prepareCitations_keys:
  "map key (prepareCitations cases) = map citation_key [0..<length cases]"
proof -
  have "map key (prepareCitations cases) = map (citation_key \<circ> fst) (enumerate 0 cases)"
    by (simp add: prepareCitations_def Let_def case_prod_beta comp_def)
  also have "\<dots> = map citation_key (map fst (enumerate 0 cases))"
    by (simp only: map_map)
  also have "\<dots> = map citation_key [0..<length cases]"
    by (simp add: map_fst_enumerate)
  finally show ?thesis .
qed

lemma prepareCitations_ids:
  "map (\<lambda>t. cit_id (tok_citation t)) (prepareCitations cases) = map caseId cases"
proof -
  have "map (\<lambda>t. cit_id (tok_citation t)) (prepareCitations cases) = map (caseId \<circ> snd) (enumerate 0 cases)"
    by (simp add: prepareCitations_def Let_def case_prod_beta comp_def case_citation_def)
  also have "\<dots> = map caseId (map snd (enumerate 0 cases))"
    by (simp only: map_map)
  also have "\<dots> = map caseId cases"
    by (simp add: map_snd_enumerate)
  finally show ?thesis .
qed

lemma prepareCitations_papers_keys:
  "map key (prepareCitations_papers ps) = map citation_key [0..<length ps]"
proof -
  have "map key (prepareCitations_papers ps) = map (citation_key \<circ> fst) (enumerate 0 ps)"
    by (simp add: prepareCitations_papers_def Let_def case_prod_beta comp_def)
  also have "\<dots> = map citation_key (map fst (enumerate 0 ps))"
    by (simp only: map_map)
  also have "\<dots> = map citation_key [0..<length ps]"
    by (simp add: map_fst_enumerate)
  finally show ?thesis .
qed

lemma prepareCitations_papers_ids:
  "map (\<lambda>t. cit_id (tok_citation t)) (prepareCitations_papers ps) = map paperId ps"
proof -
  have "map (\<lambda>t. cit_id (tok_citation t)) (prepareCitations_papers ps) = map (paperId \<circ> snd) (enumerate 0 ps)"
    by (simp add: prepareCitations_papers_def Let_def case_prod_beta comp_def paper_citation_def)
  also have "\<dots> = map paperId (map snd (enumerate 0 ps))"
    by (simp only: map_map)
  also have "\<dots> = map paperId ps"
    by (simp add: map_snd_enumerate)
  finally show ?thesis .
qed

text \<open>
  Claim C5. \<open>selectOptimal\<close> is the diversity selection applied to the scored list of
  the first occurrences of each identifier, in both routes, and \<open>prepareCitations\<close>
  gives the selected items the keys \<open>C1\<close>, \<open>C2\<close>, ... in selection order, each token
  carrying the identifier of its item.
\<close>

theorem selection_pipeline:
  "selectOptimal score cases target
     = selectDiverse (map (\<lambda>c. (c, score c)) (first_occurrences caseId cases)) (min target 20)
   \<and> selectOptimal_papers pscore papers ptarget
     = selectDiverse_papers (map (\<lambda>p. (p, pscore p)) (first_occurrences paperId papers))
         (min ptarget 25)
   \<and> map key (prepareCitations (selectOptimal score cases target))
     = map (\<lambda>i. CHR ''C'' # show_nat (i + 1)) [0..<length (selectOptimal score cases target)]
   \<and> map (\<lambda>t. cit_id (tok_citation t)) (prepareCitations (selectOptimal score cases target))
     = map caseId (selectOptimal score cases target)
   \<and> map key (prepareCitations_papers (selectOptimal_papers pscore papers ptarget))
     = map (\<lambda>i. CHR ''C'' # show_nat (i + 1))
         [0..<length (selectOptimal_papers pscore papers ptarget)]
   \<and> map (\<lambda>t. cit_id (tok_citation t))
         (prepareCitations_papers (selectOptimal_papers pscore papers ptarget))
     = map paperId (selectOptimal_papers pscore papers ptarget)"
  by (simp add: selectOptimal_def selectOptimal_papers_def Let_def dedupe_first_occurrences
      dedupe_papers_first_occurrences prepareCitations_keys prepareCitations_ids
      prepareCitations_papers_keys prepareCitations_papers_ids citation_key_def)


theorem selection_pipeline_witness:
  "selectOptimal (\<lambda>c. 0)
     [sample_case ''a'' None None, sample_case ''b'' None None, sample_case ''a'' None None] 10
   = [sample_case ''a'' None None, sample_case ''b'' None None]
   \<and> map key (prepareCitations (selectOptimal (\<lambda>c. 0)
        [sample_case ''a'' None None, sample_case ''b'' None None, sample_case ''a'' None None] 10))
     = [''C1'', ''C2'']"
proof -
  have ev: "selectOptimal (\<lambda>c. 0)
     [sample_case ''a'' None None, sample_case ''b'' None None, sample_case ''a'' None None] 10
   = [sample_case ''a'' None None, sample_case ''b'' None None]"
    by (simp add: selectOptimal_def dedupe_def selectDiverse_def Let_def or_else_def year_or_def)
  from selection_pipeline [where score = "\<lambda>c. 0" and target = 10 and cases =
      "[sample_case ''a'' None None, sample_case ''b'' None None, sample_case ''a'' None None]"]
  have "map key (prepareCitations (selectOptimal (\<lambda>c. 0)
        [sample_case ''a'' None None, sample_case ''b'' None None, sample_case ''a'' None None] 10))
     = map (\<lambda>i. CHR ''C'' # show_nat (i + 1)) [0..<length (selectOptimal (\<lambda>c. 0)
        [sample_case ''a'' None None, sample_case ''b'' None None, sample_case ''a'' None None] 10)]"
    by blast
  also have "\<dots> = [''C1'', ''C2'']"
    unfolding ev by (simp add: show_nat.simps digit_char_def upt_rec)
  finally show ?thesis using ev by blast
qed

subsection \<open>Size of the selection\<close>

lemma selectOptimal_length: "length (selectOptimal score cases target) \<le> min target 20"
  unfolding selectOptimal_def selectDiverse_def Let_def
  by (rule selectDiverse_loop_length) simp

lemma selectOptimal_papers_length:
  "length (selectOptimal_papers score papers target) \<le> min target 25"
  unfolding selectOptimal_papers_def selectDiverse_papers_def Let_def
  by (rule selectDiverse_papers_loop_length) simp

lemma analyzeQuery_caseCount_le: "caseCount (analyzeQuery q) \<le> 30"
  by (simp add: analyzeQuery_def Let_def)

lemma analyzeQuery_papers_paperCount_le: "paperCount (analyzeQuery_papers q) \<le> 40"
  by (simp add: analyzeQuery_papers_def Let_def)

lemma test_words_from_head:
  "w \<in> set ws \<Longrightarrow> word_at w prev (c # cs) \<Longrightarrow> test_words_from ws prev (c # cs)"
  by (auto simp: list_ex_iff)

lemma test_words_from_skip:
  "test_words_from ws (Some c) cs \<Longrightarrow> test_words_from ws prev (c # cs)"
  by simp

lemma detailed_query:
  "test_words [''comprehensive'', ''detailed'', ''thorough'', ''deep dive''] ''a detailed look at it''"
  unfolding test_words_def
  apply (rule test_words_from_skip)
  apply (rule test_words_from_skip)
  apply (rule test_words_from_head [where w = "''detailed''"])
   apply simp
  apply (simp add: word_at_def Let_def isWordChar_def first_char_def toLowerCase_def
      toLowerCase_char_def)
  done

lemma detailed_query_words: "length (split_ws (trim ''a detailed look at it'')) = 5"
  by (simp add: split_ws_def trim_def isWhiteSpace_def)

text \<open>
  Claim C7. \<open>selectOptimal\<close> returns at most \<open>min target 20\<close> cases in the legal route
  and at most \<open>min target 25\<close> papers in the paper route, whatever the scores; the query
  analyzer asks for at most 30 cases and at most 40 papers, and there is a query for which
  it asks for exactly that many.
\<close>

theorem selectOptimal_bounded:
  "length (selectOptimal score cases target) \<le> min target 20
   \<and> length (selectOptimal_papers pscore papers ptarget) \<le> min ptarget 25
   \<and> caseCount (analyzeQuery q) \<le> 30
   \<and> paperCount (analyzeQuery_papers q) \<le> 40
   \<and> caseCount (analyzeQuery ''a detailed look at it'') = 30
   \<and> paperCount (analyzeQuery_papers ''a detailed look at it'') = 40"
proof (intro conjI)
  show "length (selectOptimal score cases target) \<le> min target 20"
    by (rule selectOptimal_length)
  show "length (selectOptimal_papers pscore papers ptarget) \<le> min ptarget 25"
    by (rule selectOptimal_papers_length)
  show "caseCount (analyzeQuery q) \<le> 30"
    by (rule analyzeQuery_caseCount_le)
  show "paperCount (analyzeQuery_papers q) \<le> 40"
    by (rule analyzeQuery_papers_paperCount_le)
  show "caseCount (analyzeQuery ''a detailed look at it'') = 30"
    using detailed_query detailed_query_words by (simp add: analyzeQuery_def Let_def)
  show "paperCount (analyzeQuery_papers ''a detailed look at it'') = 40"
    using detailed_query detailed_query_words by (simp add: analyzeQuery_papers_def Let_def)
qed

theorem selectOptimal_bounded_witness:
  "length (selectOptimal (\<lambda>c. 0)
     [sample_case ''a'' None None, sample_case ''b'' None None, sample_case ''c'' None None] 2)
   \<le> min 2 20
   \<and> selectOptimal (\<lambda>c. 0)
     [sample_case ''a'' None None, sample_case ''b'' None None, sample_case ''c'' None None] 2
     = [sample_case ''a'' None None, sample_case ''b'' None None]"
proof -
  have ev: "selectOptimal (\<lambda>c. 0)
     [sample_case ''a'' None None, sample_case ''b'' None None, sample_case ''c'' None None] 2
     = [sample_case ''a'' None None, sample_case ''b'' None None]"
    by (simp add: selectOptimal_def dedupe_def selectDiverse_def Let_def or_else_def year_or_def)
  from selectOptimal_bounded [where score = "\<lambda>c. 0" and target = 2 and cases =
      "[sample_case ''a'' None None, sample_case ''b'' None None, sample_case ''c'' None None]"]
  have "length (selectOptimal (\<lambda>c. 0)
     [sample_case ''a'' None None, sample_case ''b'' None None, sample_case ''c'' None None] 2)
   \<le> min 2 20"
    by blast
  with ev show ?thesis by blast
qed

section \<open>Properties of the citation renumbering\<close>

subsection \<open>Decimal numerals\<close>

lemma digit_char_isDigit: "d < 10 \<Longrightarrow> isDigit (digit_char d)"
  unfolding isDigit_def digit_char_def by (rule nth_mem) simp

lemma digit_char_inj: "d < 10 \<Longrightarrow> e < 10 \<Longrightarrow> digit_char d = digit_char e \<Longrightarrow> d = e"
  unfolding digit_char_def
  by (subst (asm) nth_eq_iff_index_eq) simp_all

lemma show_nat_nonempty: "show_nat n \<noteq> []"
  by (subst show_nat.simps) simp

lemma show_nat_digits: "c \<in> set (show_nat n) \<Longrightarrow> isDigit c"
proof (induction n arbitrary: c rule: show_nat.induct)
  case (1 n)
  show ?case
  proof (cases "n < 10")
    case True
    with "1.prems" show ?thesis
      by (subst (asm) show_nat.simps) (simp add: digit_char_isDigit)
  next
    case False
    with "1.prems" have "c \<in> set (show_nat (n div 10)) \<or> c = digit_char (n mod 10)"
      by (subst (asm) show_nat.simps) auto
    then show ?thesis
      using "1.IH" [OF False] by (auto simp: digit_char_isDigit)
  qed
qed

lemma show_nat_inj: "show_nat n = show_nat m \<Longrightarrow> n = m"
proof (induction n arbitrary: m rule: show_nat.induct)
  case (1 n)
  have sn: "show_nat n = (if n < 10 then [digit_char n]
                          else show_nat (n div 10) @ [digit_char (n mod 10)])"
    by (rule show_nat.simps)
  have sm: "show_nat m = (if m < 10 then [digit_char m]
                          else show_nat (m div 10) @ [digit_char (m mod 10)])"
    by (rule show_nat.simps)
  show ?case
  proof (cases "n < 10")
    case n: True
    show ?thesis
    proof (cases "m < 10")
      case True
      with n "1.prems" sn sm show ?thesis by (auto dest: digit_char_inj)
    next
      case False
      with n "1.prems" sn sm show ?thesis
        using show_nat_nonempty [of "m div 10"] by auto
    qed
  next
    case n: False
    show ?thesis
    proof (cases "m < 10")
      case True
      with n "1.prems" sn sm show ?thesis
        using show_nat_nonempty [of "n div 10"] by auto
    next
      case False
      with n "1.prems" sn sm
      have a: "show_nat (n div 10) = show_nat (m div 10)"
        and b: "digit_char (n mod 10) = digit_char (m mod 10)"
        by simp_all
      from a have "n div 10 = m div 10" by (rule "1.IH" [OF n])
      moreover from b have "n mod 10 = m mod 10"
        by (rule digit_char_inj [rotated 2]) simp_all
      ultimately show ?thesis by (metis div_mult_mod_eq)
    qed
  qed
qed

subsection \<open>Renumbering by first appearance\<close>

lemma rank_seen: "d \<in> set pre \<Longrightarrow> rank d (pre @ toks) = rank d pre"
  by (simp add: rank_def takeWhile_append1)

lemma rank_fresh: "d \<notin> set pre \<Longrightarrow> rank d (pre @ d # toks) = Suc (card (set pre))"
proof -
  assume "d \<notin> set pre"
  then have "takeWhile (\<lambda>y. y \<noteq> d) (pre @ d # toks) = pre @ takeWhile (\<lambda>y. y \<noteq> d) (d # toks)"
    by (intro takeWhile_append2) auto
  then show ?thesis by (simp add: rank_def)
qed

lemma seen_map_Nil: "seen_map [] = Map.empty"
  by (auto simp: seen_map_def fun_eq_iff split: list.splits)

lemma seen_map_seen: "d \<in> set pre \<Longrightarrow> seen_map (pre @ [d]) = seen_map pre"
  by (auto simp: seen_map_def fun_eq_iff rank_seen split: list.splits)

lemma seen_map_fresh:
  "d \<notin> set pre \<Longrightarrow>
   seen_map (pre @ [d]) = (seen_map pre)(CHR ''C'' # d \<mapsto> Suc (card (set pre)))"
  using rank_fresh [of d pre "[]"]
  by (auto simp: seen_map_def fun_eq_iff rank_seen split: list.splits)

lemma renumber_rank_from:
  "renumber (seen_map pre) (Suc (card (set pre))) segs
     = map (map_tok (\<lambda>d. show_nat (rank d (pre @ tokens_of segs)))) segs"
proof (induction segs arbitrary: pre)
  case Nil
  then show ?case by simp
next
  case (Cons sg segs)
  show ?case
  proof (cases sg)
    case (Lit c)
    then show ?thesis by (simp add: Cons.IH)
  next
    case (Tok d)
    show ?thesis
    proof (cases "d \<in> set pre")
      case True
      then have look: "seen_map pre (CHR ''C'' # d) = Some (rank d pre)"
        by (simp add: seen_map_def)
      have st: "seen_map (pre @ [d]) = seen_map pre"
        by (rule seen_map_seen [OF True])
      have cd: "Suc (card (set (pre @ [d]))) = Suc (card (set pre))"
        using True by (simp add: insert_absorb)
      have "renumber (seen_map pre) (Suc (card (set pre))) segs
              = map (map_tok (\<lambda>e. show_nat (rank e ((pre @ [d]) @ tokens_of segs)))) segs"
        using Cons.IH [of "pre @ [d]"] unfolding st cd .
      then show ?thesis
        using Tok look True by (simp add: rank_seen)
    next
      case False
      then have look: "seen_map pre (CHR ''C'' # d) = None"
        by (simp add: seen_map_def)
      have st: "seen_map (pre @ [d]) = (seen_map pre)(CHR ''C'' # d \<mapsto> Suc (card (set pre)))"
        by (rule seen_map_fresh [OF False])
      have cd: "Suc (card (set (pre @ [d]))) = Suc (Suc (card (set pre)))"
        using False by simp
      have "renumber ((seen_map pre)(CHR ''C'' # d \<mapsto> Suc (card (set pre))))
                (Suc (Suc (card (set pre)))) segs
              = map (map_tok (\<lambda>e. show_nat (rank e ((pre @ [d]) @ tokens_of segs)))) segs"
        using Cons.IH [of "pre @ [d]"] unfolding st cd .
      then show ?thesis
        using Tok look False by (simp add: rank_fresh del: fun_upd_apply)
    qed
  qed
qed

lemma renumber_rank:
  "renumber Map.empty 1 segs = map (map_tok (\<lambda>d. show_nat (rank d (tokens_of segs)))) segs"
  using renumber_rank_from [of "[]" segs] by (simp add: seen_map_Nil)

lemma tokens_of_map_tok: "tokens_of (map (map_tok g) segs) = map g (tokens_of segs)"
  by (induction segs rule: tokens_of.induct) simp_all

lemma lit_of_map_tok: "map lit_of (map (map_tok g) segs) = map lit_of segs"
  by (induction segs rule: tokens_of.induct) simp_all

lemma map_tok_cong:
  "(\<And>d. d \<in> set (tokens_of segs) \<Longrightarrow> g d = h d) \<Longrightarrow>
   map (map_tok g) segs = map (map_tok h) segs"
  by (induction segs rule: tokens_of.induct) simp_all

lemma first_occurrence_split:
  "d \<in> set toks \<Longrightarrow> \<exists>s. toks = takeWhile (\<lambda>y. y \<noteq> d) toks @ d # s"
proof -
  assume d: "d \<in> set toks"
  then have ne: "dropWhile (\<lambda>y. y \<noteq> d) toks \<noteq> []"
    by (simp add: dropWhile_eq_Nil_conv)
  then have "hd (dropWhile (\<lambda>y. y \<noteq> d) toks) = d"
    using hd_dropWhile [of "\<lambda>y. y \<noteq> d" toks] by simp
  with ne obtain s where "dropWhile (\<lambda>y. y \<noteq> d) toks = d # s"
    by (cases "dropWhile (\<lambda>y. y \<noteq> d) toks") auto
  then have "takeWhile (\<lambda>y. y \<noteq> d) toks @ d # s = toks"
    using takeWhile_dropWhile_id [of "\<lambda>y. y \<noteq> d" toks] by simp
  then have "toks = takeWhile (\<lambda>y. y \<noteq> d) toks @ d # s"
    by (rule sym)
  then show ?thesis by (rule exI)
qed

lemma rank_less:
  assumes "toks = p @ d # s" "toks = q @ e # t" "d \<notin> set p" "e \<notin> set q" "d \<noteq> e"
    and "length p \<le> length q"
  shows "card (set p) < card (set q)"
proof -
  from assms(1,2) have eq: "p @ d # s = q @ e # t" by simp
  then have "take (length p) (p @ d # s) = take (length p) (q @ e # t)" by simp
  with assms(6) have pq: "p = take (length p) q" by simp
  define us where "us = drop (length p) q"
  have "p @ us = take (length p) q @ drop (length p) q"
    unfolding us_def using pq by (rule arg_cong)
  then have us: "q = p @ us" by simp
  with eq have "d # s = us @ e # t" by simp
  with assms(5) obtain us' where "us = d # us'"
    by (cases us) auto
  with us have "d \<in> set q" "set p \<subseteq> set q" by auto
  with assms(3) have "set p \<subset> set q" by blast
  then show ?thesis by (simp add: psubset_card_mono)
qed

lemma rank_inj:
  assumes "d \<in> set toks" "e \<in> set toks" "rank d toks = rank e toks"
  shows "d = e"
proof (rule ccontr)
  assume ne: "d \<noteq> e"
  let ?p = "takeWhile (\<lambda>y. y \<noteq> d) toks" and ?q = "takeWhile (\<lambda>y. y \<noteq> e) toks"
  from first_occurrence_split [OF assms(1)] obtain s where s: "toks = ?p @ d # s" ..
  from first_occurrence_split [OF assms(2)] obtain t where t: "toks = ?q @ e # t" ..
  have dp: "d \<notin> set ?p" and eq: "e \<notin> set ?q"
    by (auto dest: set_takeWhileD)
  from assms(3) have c: "card (set ?p) = card (set ?q)"
    by (simp add: rank_def)
  show False
  proof (cases "length ?p \<le> length ?q")
    case True
    from rank_less [OF s t dp eq ne True] c show False by simp
  next
    case False
    then have "length ?q \<le> length ?p" by simp
    from rank_less [OF t s eq dp ne [symmetric] this] c show False by simp
  qed
qed

lemma rank_map_inj:
  assumes "inj_on f (set xs)" "d \<in> set xs"
  shows "rank (f d) (map f xs) = rank d xs"
proof -
  have "takeWhile (\<lambda>y. y \<noteq> f d) (map f xs) = map f (takeWhile (\<lambda>x. f x \<noteq> f d) xs)"
    by (simp add: takeWhile_map comp_def)
  also have "takeWhile (\<lambda>x. f x \<noteq> f d) xs = takeWhile (\<lambda>x. x \<noteq> d) xs"
    using assms by (intro takeWhile_cong) (auto dest: inj_onD)
  finally have "set (takeWhile (\<lambda>y. y \<noteq> f d) (map f xs)) = f ` set (takeWhile (\<lambda>x. x \<noteq> d) xs)"
    by simp
  moreover have "inj_on f (set (takeWhile (\<lambda>x. x \<noteq> d) xs))"
    using assms(1) by (rule inj_on_subset) (auto dest: set_takeWhileD)
  ultimately show ?thesis
    by (simp add: rank_def card_image)
qed

lemma numbering_inj: "inj_on (\<lambda>d. show_nat (rank d toks)) (set toks)"
  by (rule inj_onI) (auto dest!: show_nat_inj intro: rank_inj)

lemma map_tok_comp: "map_tok g (map_tok f x) = map_tok (\<lambda>d. g (f d)) x"
  by (cases x) simp_all

lemma renumber_idem:
  "renumber Map.empty 1 (renumber Map.empty 1 segs) = renumber Map.empty 1 segs"
proof -
  let ?old = "tokens_of segs"
  let ?f = "\<lambda>d. show_nat (rank d ?old)"
  have "renumber Map.empty 1 (map (map_tok ?f) segs)
          = map (map_tok (\<lambda>e. show_nat (rank e (tokens_of (map (map_tok ?f) segs)))))
              (map (map_tok ?f) segs)"
    by (rule renumber_rank)
  also have "\<dots> = map (map_tok (\<lambda>e. show_nat (rank e (map ?f ?old)))) (map (map_tok ?f) segs)"
    by (simp only: tokens_of_map_tok)
  also have "\<dots> = map (map_tok (\<lambda>d. show_nat (rank (?f d) (map ?f ?old)))) segs"
    by (simp add: map_tok_comp)
  also have "\<dots> = map (map_tok ?f) segs"
    by (rule map_tok_cong) (simp add: rank_map_inj [OF numbering_inj])
  finally have fin: "renumber Map.empty 1 (map (map_tok ?f) segs) = map (map_tok ?f) segs" .
  show ?thesis
    using fin by (simp only: renumber_rank [of segs])
qed

subsection \<open>Scanning a rewritten text\<close>

lemma not_digit_bracket [simp]:
  "\<not> isDigit CHR ''[''" "\<not> isDigit CHR '']''" "\<not> isDigit CHR ''C''"
  by (simp_all add: isDigit_def)

lemma match_token_Cons3:
  "match_token (a # b # c # r) =
     (if a = CHR ''['' \<and> b = CHR ''['' \<and> c = CHR ''C'' then
        (case dropWhile isDigit r of
           x # y # rest \<Rightarrow>
             if takeWhile isDigit r \<noteq> [] \<and> x = CHR '']'' \<and> y = CHR '']''
             then Some (takeWhile isDigit r, rest) else None
         | _ \<Rightarrow> None)
      else None)"
  by (simp add: match_token_def)

lemma match_token_short:
  "match_token [] = None" "match_token [a] = None" "match_token [a, b] = None"
  by (simp_all add: match_token_def)

lemma match_token_SomeD:
  assumes "match_token s = Some (ds, rest)"
  shows "s = ''[[C'' @ ds @ '']]'' @ rest \<and> ds \<noteq> [] \<and> (\<forall>d\<in>set ds. isDigit d)"
proof -
  from assms obtain a b c r where s: "s = a # b # c # r"
    by (cases s; cases "tl s"; cases "tl (tl s)") (simp_all add: match_token_short)
  from assms have abc: "a = CHR ''['' \<and> b = CHR ''['' \<and> c = CHR ''C''"
    unfolding s match_token_Cons3 by (simp split: if_splits)
  with assms have m: "(case dropWhile isDigit r of
           x # y # rest \<Rightarrow>
             if takeWhile isDigit r \<noteq> [] \<and> x = CHR '']'' \<and> y = CHR '']''
             then Some (takeWhile isDigit r, rest) else None
         | _ \<Rightarrow> None) = Some (ds, rest)"
    unfolding s match_token_Cons3 by simp
  then obtain x y rest0 where dw: "dropWhile isDigit r = x # y # rest0"
    by (cases "dropWhile isDigit r"; cases "tl (dropWhile isDigit r)") simp_all
  with m have dr: "dropWhile isDigit r = CHR '']'' # CHR '']'' # rest"
    and ds: "ds = takeWhile isDigit r" and ne: "takeWhile isDigit r \<noteq> []"
    by (simp_all split: if_splits)
  have "r = takeWhile isDigit r @ dropWhile isDigit r" by simp
  also have "\<dots> = ds @ '']]'' @ rest" unfolding ds dr by simp
  finally have r: "r = ds @ '']]'' @ rest" .
  have "\<forall>d\<in>set ds. isDigit d"
    unfolding ds by (auto dest: set_takeWhileD)
  moreover have "ds \<noteq> []" using ne ds by simp
  moreover have "s = ''[[C'' @ ds @ '']]'' @ rest"
    unfolding s using abc r by simp
  ultimately show ?thesis by blast
qed

lemma match_token_SomeI:
  assumes "ds \<noteq> []" "\<forall>d\<in>set ds. isDigit d"
  shows "match_token (''[[C'' @ ds @ '']]'' @ rest) = Some (ds, rest)"
proof -
  have "takeWhile isDigit (ds @ '']]'' @ rest) = ds @ takeWhile isDigit ('']]'' @ rest)"
    using assms(2) by (intro takeWhile_append2) auto
  moreover have "dropWhile isDigit (ds @ '']]'' @ rest) = dropWhile isDigit ('']]'' @ rest)"
    using assms(2) by (intro dropWhile_append2) auto
  ultimately show ?thesis using assms(1) by (simp add: match_token_Cons3)
qed

lemma match_token_first:
  "c \<noteq> CHR ''['' \<Longrightarrow> match_token (c # cs) = None"
  by (cases cs; cases "tl cs") (simp_all add: match_token_short match_token_Cons3)

lemma rewritten_Nil [simp]: "rewritten g [] = []"
  by (simp add: rewritten_def)

lemma rewritten_None:
  "match_token (c # cs) = None \<Longrightarrow> rewritten g (c # cs) = c # rewritten g cs"
  by (simp add: rewritten_def)

lemma rewritten_Some:
  "match_token (c # cs) = Some (ds, rest) \<Longrightarrow>
   rewritten g (c # cs) = ''[[C'' @ g ds @ '']]'' @ rewritten g rest"
  by (simp add: rewritten_def)

lemma rewritten_first: "first_char (rewritten g s) = first_char s"
proof (cases s)
  case Nil
  then show ?thesis by simp
next
  case (Cons c cs)
  show ?thesis
  proof (cases "match_token (c # cs)")
    case None
    then show ?thesis using Cons by (simp add: rewritten_None first_char_def)
  next
    case (Some p)
    obtain ds rest where p: "p = (ds, rest)" by (cases p)
    from Some p match_token_SomeD [of "c # cs" ds rest] have "c = CHR ''[''" by simp
    then show ?thesis using Cons Some p by (simp add: rewritten_Some first_char_def)
  qed
qed

lemma rewritten_ConsD:
  assumes "rewritten g s = x # r"
  shows "\<exists>cs. s = x # cs"
  using rewritten_first [of g s] assms
  by (cases s) (simp_all add: first_char_def)

lemma rewritten_plain:
  "c \<noteq> CHR ''['' \<Longrightarrow> rewritten g (c # cs) = c # rewritten g cs"
  by (simp add: rewritten_None match_token_first)

lemma rewritten_digits:
  "takeWhile isDigit (rewritten g s) = takeWhile isDigit s
   \<and> dropWhile isDigit (rewritten g s) = rewritten g (dropWhile isDigit s)"
proof (induction s)
  case Nil
  then show ?case by simp
next
  case (Cons c cs)
  show ?case
  proof (cases "isDigit c")
    case True
    then have "c \<noteq> CHR ''[''" by auto
    then show ?thesis using True Cons by (simp add: rewritten_plain)
  next
    case False
    have "first_char (rewritten g (c # cs)) = Some c"
      by (subst rewritten_first) (simp add: first_char_def)
    then obtain r where "rewritten g (c # cs) = c # r"
      by (cases "rewritten g (c # cs)") (simp_all add: first_char_def)
    then show ?thesis using False by simp
  qed
qed

lemma rewritten_closing:
  assumes "rewritten g s = CHR '']'' # CHR '']'' # r"
  shows "\<exists>r'. s = CHR '']'' # CHR '']'' # r' \<and> r = rewritten g r'"
proof -
  from rewritten_ConsD [OF assms] obtain s1 where s: "s = CHR '']'' # s1" ..
  with assms have r1: "rewritten g s1 = CHR '']'' # r"
    by (simp add: rewritten_plain)
  from rewritten_ConsD [OF r1] obtain s2 where s1: "s1 = CHR '']'' # s2" ..
  with r1 have "r = rewritten g s2"
    by (simp add: rewritten_plain)
  with s s1 show ?thesis by simp
qed

lemma match_token_rewritten:
  assumes "match_token (c # rewritten g cs) = Some (ds', rest')"
  shows "\<exists>ds rest. match_token (c # cs) = Some (ds, rest)"
proof -
  from match_token_SomeD [OF assms]
  have sh: "c # rewritten g cs = ''[[C'' @ ds' @ '']]'' @ rest'"
    and ne: "ds' \<noteq> []" and dg: "\<forall>d\<in>set ds'. isDigit d"
    by simp_all
  from sh have c: "c = CHR ''[''" and r0: "rewritten g cs = ''[C'' @ ds' @ '']]'' @ rest'"
    by simp_all
  from r0 rewritten_ConsD [of g cs "CHR ''[''"] obtain cs1 where cs: "cs = CHR ''['' # cs1"
    by auto
  have none1: "match_token cs = None"
  proof (cases "match_token cs")
    case None
    then show ?thesis .
  next
    case (Some p)
    obtain ds rest where p: "p = (ds, rest)" by (cases p)
    from Some p cs have "rewritten g cs = ''[[C'' @ g ds @ '']]'' @ rewritten g rest"
      by (simp add: rewritten_Some)
    with r0 show ?thesis by simp
  qed
  with cs r0 have r1: "rewritten g cs1 = ''C'' @ ds' @ '']]'' @ rest'"
    by (simp add: rewritten_None)
  from r1 rewritten_ConsD [of g cs1 "CHR ''C''"] obtain cs2 where cs1: "cs1 = CHR ''C'' # cs2"
    by auto
  with r1 have r2: "rewritten g cs2 = ds' @ '']]'' @ rest'"
    by (simp add: rewritten_plain)
  have tw: "takeWhile isDigit (ds' @ '']]'' @ rest') = ds' @ takeWhile isDigit ('']]'' @ rest')"
    using dg by (intro takeWhile_append2) auto
  have dw: "dropWhile isDigit (ds' @ '']]'' @ rest') = dropWhile isDigit ('']]'' @ rest')"
    using dg by (intro dropWhile_append2) auto
  from rewritten_digits [of g cs2] r2 tw dw
  have t2: "takeWhile isDigit cs2 = ds'"
    and d2: "rewritten g (dropWhile isDigit cs2) = '']]'' @ rest'"
    by simp_all
  from d2 rewritten_closing [of g "dropWhile isDigit cs2" rest']
  obtain r' where dd: "dropWhile isDigit cs2 = CHR '']'' # CHR '']'' # r'"
    by auto
  have "match_token (c # cs) = Some (ds', r')"
    using c cs cs1 t2 dd ne by (simp add: match_token_Cons3)
  then show ?thesis by blast
qed

lemma scan_rewritten:
  assumes g: "\<And>d. g d \<noteq> [] \<and> (\<forall>c\<in>set (g d). isDigit c)"
  shows "scan_tokens (rewritten g s) = map (map_tok g) (scan_tokens s)"
proof (induction s rule: scan_tokens.induct)
  case 1
  then show ?case by simp
next
  case (2 c cs)
  show ?case
  proof (cases "match_token (c # cs)")
    case None
    then have ih: "scan_tokens (rewritten g cs) = map (map_tok g) (scan_tokens cs)"
      by (rule "2.IH"(1))
    have "match_token (c # rewritten g cs) = None"
    proof (cases "match_token (c # rewritten g cs)")
      case None
      then show ?thesis .
    next
      case (Some p)
      obtain ds' rest' where "p = (ds', rest')" by (cases p)
      with Some match_token_rewritten [of c g cs ds' rest'] None show ?thesis by auto
    qed
    then show ?thesis using None ih by (simp add: rewritten_None)
  next
    case (Some p)
    obtain ds rest where p: "p = (ds, rest)" by (cases p)
    have ih: "scan_tokens (rewritten g rest) = map (map_tok g) (scan_tokens rest)"
      using "2.IH"(2) [OF Some p [symmetric]] .
    have rw: "rewritten g (c # cs) = ''[[C'' @ g ds @ '']]'' @ rewritten g rest"
      using Some p by (simp add: rewritten_Some)
    have mt: "match_token (''[[C'' @ g ds @ '']]'' @ rewritten g rest) = Some (g ds, rewritten g rest)"
      using g [of ds] by (intro match_token_SomeI) auto
    have "scan_tokens (''[[C'' @ g ds @ '']]'' @ rewritten g rest)
            = Tok (g ds) # scan_tokens (rewritten g rest)"
      using mt by simp
    then show ?thesis using rw ih Some p by simp
  qed
qed

lemma numbering_digits:
  "show_nat (rank d toks) \<noteq> [] \<and> (\<forall>c\<in>set (show_nat (rank d toks)). isDigit c)"
  by (simp add: show_nat_nonempty show_nat_digits)

lemma deduplicateCitations_rewritten:
  "deduplicateCitations text
     = rewritten (\<lambda>d. show_nat (rank d (tokens_of (scan_tokens text)))) text"
  by (simp only: deduplicateCitations_def rewritten_def renumber_rank)

lemma scan_deduplicateCitations:
  "scan_tokens (deduplicateCitations text) = renumber Map.empty 1 (scan_tokens text)"
proof -
  let ?f = "\<lambda>d. show_nat (rank d (tokens_of (scan_tokens text)))"
  have "scan_tokens (rewritten ?f text) = map (map_tok ?f) (scan_tokens text)"
    by (rule scan_rewritten) (rule numbering_digits)
  then show ?thesis
    by (simp only: deduplicateCitations_rewritten renumber_rank)
qed

text \<open>
  Claim C9, as the code has it. With \<open>old\<close> the tokens of a text in order and \<open>new\<close>
  the tokens of the rewritten text: every token gets the numeral of the position of its
  digit string in order of first appearance, counted from 1; two tokens get the same new
  number exactly when they carried the same digit string; the characters outside the
  tokens, and the places of the tokens among them, are unchanged; and rewriting twice
  gives the same text as rewriting once.
\<close>

theorem deduplicateCitations_renumbers:
  "tokens_of (scan_tokens (deduplicateCitations txt))
     = map (\<lambda>d. show_nat (rank d (tokens_of (scan_tokens txt)))) (tokens_of (scan_tokens txt))
   \<and> (i < length (tokens_of (scan_tokens txt)) \<longrightarrow> j < length (tokens_of (scan_tokens txt)) \<longrightarrow>
        (tokens_of (scan_tokens (deduplicateCitations txt)) ! i
           = tokens_of (scan_tokens (deduplicateCitations txt)) ! j)
        = (tokens_of (scan_tokens txt) ! i = tokens_of (scan_tokens txt) ! j))
   \<and> map lit_of (scan_tokens (deduplicateCitations txt)) = map lit_of (scan_tokens txt)
   \<and> deduplicateCitations (deduplicateCitations txt) = deduplicateCitations txt"
proof (intro conjI impI)
  let ?old = "tokens_of (scan_tokens txt)"
  let ?f = "\<lambda>d. show_nat (rank d ?old)"
  have sc: "scan_tokens (deduplicateCitations txt) = map (map_tok ?f) (scan_tokens txt)"
    by (simp only: scan_deduplicateCitations renumber_rank)
  show new: "tokens_of (scan_tokens (deduplicateCitations txt)) = map ?f ?old"
    by (simp only: sc tokens_of_map_tok)
  show "map lit_of (scan_tokens (deduplicateCitations txt)) = map lit_of (scan_tokens txt)"
    by (simp only: sc lit_of_map_tok)
  show "deduplicateCitations (deduplicateCitations txt) = deduplicateCitations txt"
    by (simp only: deduplicateCitations_def [of "deduplicateCitations txt"]
        scan_deduplicateCitations renumber_idem)
       (simp only: deduplicateCitations_def)
  assume i: "i < length ?old" and j: "j < length ?old"
  then have "?old ! i \<in> set ?old" "?old ! j \<in> set ?old" by simp_all
  then have "(?f (?old ! i) = ?f (?old ! j)) = (?old ! i = ?old ! j)"
    using numbering_inj [of ?old] by (auto dest: inj_onD)
  then show "(tokens_of (scan_tokens (deduplicateCitations txt)) ! i
           = tokens_of (scan_tokens (deduplicateCitations txt)) ! j)
        = (?old ! i = ?old ! j)"
    using i j by (simp add: new)
qed

theorem deduplicateCitations_renumbers_witness:
  "deduplicateCitations ''a [[C7]] b [[C3]] c [[C7]].'' = ''a [[C1]] b [[C2]] c [[C1]].''
   \<and> deduplicateCitations (deduplicateCitations ''a [[C7]] b [[C3]] c [[C7]].'')
       = ''a [[C1]] b [[C2]] c [[C1]].''"
proof -
  have ev: "deduplicateCitations ''a [[C7]] b [[C3]] c [[C7]].'' = ''a [[C1]] b [[C2]] c [[C1]].''"
    by (simp add: deduplicateCitations_def match_token_def isDigit_def show_nat.simps
        digit_char_def)
  have "deduplicateCitations (deduplicateCitations ''a [[C7]] b [[C3]] c [[C7]].'')
          = deduplicateCitations ''a [[C7]] b [[C3]] c [[C7]].''"
    by (rule deduplicateCitations_renumbers [THEN conjunct2, THEN conjunct2, THEN conjunct2])
  with ev show ?thesis by simp
qed

text \<open>
  Tokens are told apart by their digit strings, not by the numbers these denote:
  \<open>[[C01]]\<close> and \<open>[[C1]]\<close> carry the same number and get different new numbers.
\<close>

theorem deduplicateCitations_leading_zero_counterexample:
  "deduplicateCitations ''[[C01]][[C1]]'' = ''[[C1]][[C2]]''
   \<and> digits_value ''01'' = digits_value ''1''"
  by (simp add: deduplicateCitations_def match_token_def isDigit_def show_nat.simps
      digit_char_def digits_value_def)

section \<open>Properties of the safety analyzer\<close>

lemma includes_str_occurs: "includes_str s k = occurs_in k s"
proof (induction s)
  case Nil
  then show ?case by (auto simp: occurs_in_def)
next
  case (Cons c cs)
  have pre: "(take (length k) (c # cs) = k) = (\<exists>post. c # cs = k @ post)"
    by (metis append_eq_conv_conj append_take_drop_id)
  show ?case
  proof
    assume "includes_str (c # cs) k"
    then consider "take (length k) (c # cs) = k" | "occurs_in k cs"
      using Cons.IH by auto
    then show "occurs_in k (c # cs)"
    proof cases
      case 1
      with pre obtain post where "c # cs = [] @ k @ post" by auto
      then show ?thesis unfolding occurs_in_def by blast
    next
      case 2
      then obtain p q where "cs = p @ k @ q" unfolding occurs_in_def by blast
      then have "c # cs = (c # p) @ k @ q" by simp
      then show ?thesis unfolding occurs_in_def by blast
    qed
  next
    assume "occurs_in k (c # cs)"
    then obtain p q where pq: "c # cs = p @ k @ q" unfolding occurs_in_def by blast
    show "includes_str (c # cs) k"
    proof (cases p)
      case Nil
      with pq have "\<exists>post. c # cs = k @ post" by auto
      with pre have "take (length k) (c # cs) = k" by (simp only:)
      then show ?thesis by simp
    next
      case (Cons a p')
      with pq have "cs = p' @ k @ q" by simp
      then have "occurs_in k cs" unfolding occurs_in_def by blast
      with Cons.IH show ?thesis by simp
    qed
  qed
qed

lemma check_patterns_detected:
  "fst (check_patterns t ps (detected, recs, warns))
     = detected @ filter (\<lambda>p. list_ex (\<lambda>k. includes_str t (toLowerCase k)) (detection_keywords p)) ps"
  by (induction ps arbitrary: detected recs warns) (simp_all add: Let_def)

lemma maximum_ge: "x \<in> set xs \<Longrightarrow> x \<le> maximum xs"
  by (induction xs) auto

lemma maximum_mem: "xs \<noteq> [] \<Longrightarrow> maximum xs \<in> set xs"
proof (induction xs)
  case Nil
  then show ?case by simp
next
  case (Cons x xs)
  then show ?case by (cases "xs = []") (auto simp: max_def)
qed

lemma severityMap_score: "severityMap (getSeverityScore s) = Some s"
  by (cases s) (simp_all add: severityMap_def)

lemma calculateOverallRisk_max:
  assumes "ps \<noteq> []"
  shows "(\<exists>p\<in>set ps. risk_level p = calculateOverallRisk ps)
         \<and> (\<forall>p\<in>set ps. getSeverityScore (risk_level p) \<le> getSeverityScore (calculateOverallRisk ps))"
proof -
  let ?scores = "map (\<lambda>p. getSeverityScore (risk_level p)) ps"
  from assms have "maximum ?scores \<in> set ?scores" by (intro maximum_mem) simp
  then obtain p where p: "p \<in> set ps" "maximum ?scores = getSeverityScore (risk_level p)"
    by auto
  then have r: "calculateOverallRisk ps = risk_level p"
    using assms by (simp add: calculateOverallRisk_def Let_def severityMap_score)
  have "\<forall>q\<in>set ps. getSeverityScore (risk_level q) \<le> maximum ?scores"
    by (auto intro: maximum_ge)
  with p r show ?thesis by auto
qed

text \<open>
  Claim C1, as the code has it. For every query and optional context,
  \<open>analyzeQuerySafety\<close> flags exactly the loaded patterns, in their order, that have a
  detection keyword whose lower-case form occurs in the lower-case form of the text made
  of the query, one space and the context (nothing for an absent context). The risk level
  is \<open>low\<close> when nothing is flagged and otherwise the highest severity among the flagged
  patterns: it is the severity of a flagged pattern and no flagged pattern scores higher.
\<close>

theorem analyzeQuerySafety_flags:
  "detectedPatterns (analyzeQuerySafety safetyPatterns query ctx)
     = filter (\<lambda>p. \<exists>k\<in>set (detection_keywords p).
                  occurs_in (toLowerCase k) (toLowerCase (query @ '' '' @ or_else ctx [])))
         safetyPatterns
   \<and> (detectedPatterns (analyzeQuerySafety safetyPatterns query ctx) = []
        \<longrightarrow> riskLevel (analyzeQuerySafety safetyPatterns query ctx) = Low)
   \<and> (detectedPatterns (analyzeQuerySafety safetyPatterns query ctx) \<noteq> []
        \<longrightarrow> (\<exists>p\<in>set (detectedPatterns (analyzeQuerySafety safetyPatterns query ctx)).
               risk_level p = riskLevel (analyzeQuerySafety safetyPatterns query ctx))
            \<and> (\<forall>p\<in>set (detectedPatterns (analyzeQuerySafety safetyPatterns query ctx)).
                 getSeverityScore (risk_level p)
                   \<le> getSeverityScore (riskLevel (analyzeQuerySafety safetyPatterns query ctx))))"
proof -
  let ?t = "toLowerCase (query @ '' '' @ or_else ctx [])"
  let ?d = "fst (check_patterns ?t safetyPatterns ([], [], []))"
  have d: "detectedPatterns (analyzeQuerySafety safetyPatterns query ctx) = ?d"
    and r: "riskLevel (analyzeQuerySafety safetyPatterns query ctx) = calculateOverallRisk ?d"
    by (simp_all add: analyzeQuerySafety_def Let_def case_prod_beta)
  have f: "?d = filter (\<lambda>p. \<exists>k\<in>set (detection_keywords p). occurs_in (toLowerCase k) ?t)
                  safetyPatterns"
    by (simp add: check_patterns_detected list_ex_iff includes_str_occurs)
  show ?thesis
    unfolding d r
    using f calculateOverallRisk_max [of ?d]
    by (auto simp: calculateOverallRisk_def)
qed

theorem analyzeQuerySafety_flags_witness:
  "detectedPatterns (analyzeQuerySafety
       [sample_pattern ''Fraud'' High, sample_pattern ''leak'' Medium, sample_pattern ''bomb'' Critical]
       ''Is wire FRAUD a felony'' (Some ''data leaks''))
     = [sample_pattern ''Fraud'' High, sample_pattern ''leak'' Medium]
   \<and> riskLevel (analyzeQuerySafety
       [sample_pattern ''Fraud'' High, sample_pattern ''leak'' Medium, sample_pattern ''bomb'' Critical]
       ''Is wire FRAUD a felony'' (Some ''data leaks'')) = High"
proof -
  have ev: "analyzeQuerySafety
       [sample_pattern ''Fraud'' High, sample_pattern ''leak'' Medium, sample_pattern ''bomb'' Critical]
       ''Is wire FRAUD a felony'' (Some ''data leaks'')
     = \<lparr>riskLevel = High,
        detectedPatterns = [sample_pattern ''Fraud'' High, sample_pattern ''leak'' Medium],
        recommendations = [''Review by counsel''],
        warnings = [''HIGH RISK: Detected pattern '' @ [CHR 0x22] @ ''Fraud'' @ [CHR 0x22]
                      @ '' - bias risk'']\<rparr>"
    by (simp add: analyzeQuerySafety_def Let_def or_else_def toLowerCase_def toLowerCase_char_def
        char_of_eq_iff calculateOverallRisk_def severityMap_def pattern_warning_def)
  from analyzeQuerySafety_flags [where query = "''Is wire FRAUD a felony''"
      and ctx = "Some ''data leaks''" and safetyPatterns =
       "[sample_pattern ''Fraud'' High, sample_pattern ''leak'' Medium, sample_pattern ''bomb'' Critical]"]
  have "detectedPatterns (analyzeQuerySafety
       [sample_pattern ''Fraud'' High, sample_pattern ''leak'' Medium, sample_pattern ''bomb'' Critical]
       ''Is wire FRAUD a felony'' (Some ''data leaks'')) \<noteq> []
    \<longrightarrow> (\<forall>p\<in>set (detectedPatterns (analyzeQuerySafety
       [sample_pattern ''Fraud'' High, sample_pattern ''leak'' Medium, sample_pattern ''bomb'' Critical]
       ''Is wire FRAUD a felony'' (Some ''data leaks''))).
           getSeverityScore (risk_level p) \<le> getSeverityScore (riskLevel (analyzeQuerySafety
       [sample_pattern ''Fraud'' High, sample_pattern ''leak'' Medium, sample_pattern ''bomb'' Critical]
       ''Is wire FRAUD a felony'' (Some ''data leaks''))))"
    by blast
  with ev show ?thesis by simp
qed

text \<open>
  The text searched is not the query directly followed by the context. With the query
  \<open>a\<close> and the context \<open>b\<close>, the keyword \<open>ab\<close> occurs in \<open>ab\<close> and is not flagged,
  and the keyword \<open>a b\<close> does not occur in \<open>ab\<close> and is flagged.
\<close>

theorem analyzeQuerySafety_space_counterexample:
  "occurs_in (toLowerCase ''ab'') (toLowerCase (''a'' @ ''b''))
   \<and> detectedPatterns (analyzeQuerySafety [sample_pattern ''ab'' High] ''a'' (Some ''b'')) = []
   \<and> \<not> occurs_in (toLowerCase ''a b'') (toLowerCase (''a'' @ ''b''))
   \<and> detectedPatterns (analyzeQuerySafety [sample_pattern ''a b'' High] ''a'' (Some ''b''))
       = [sample_pattern ''a b'' High]"
  unfolding includes_str_occurs [symmetric]
  by (simp add: analyzeQuerySafety_def Let_def or_else_def toLowerCase_def toLowerCase_char_def
      char_of_eq_iff)

section \<open>Properties of the searches\<close>

lemma run_searches_length: "length (fst (run_searches search qs p)) = length qs"
  by (induction qs arbitrary: p) (simp_all add: case_prod_beta Let_def)

lemma rejection_NilD:
  "(case out of Inl e \<Rightarrow> [e] | Inr v \<Rightarrow> []) = [] \<Longrightarrow> \<exists>v. out = Inr v"
  by (cases out) simp_all

lemma rejections_Nil_iff:
  "rejections ord outs = [] \<longleftrightarrow> (\<forall>out\<in>set outs. \<exists>v. out = Inr v)"
proof
  assume "rejections ord outs = []"
  then have "\<forall>out\<in>set outs. (case out of Inl e \<Rightarrow> [e] | Inr v \<Rightarrow> []) = []"
    by (simp add: rejections_def)
  then show "\<forall>out\<in>set outs. \<exists>v. out = Inr v"
    by (auto dest: rejection_NilD)
next
  assume a: "\<forall>out\<in>set outs. \<exists>v. out = Inr v"
  have nth: "\<exists>v. outs ! i = Inr v" if "i < length outs" for i
    using a that nth_mem by blast
  have "(case out of Inl e \<Rightarrow> [e] | Inr v \<Rightarrow> []) = []" if "out \<in> set outs" for out
    using a that by auto
  moreover have "(if i < length outs then (case outs ! i of Inl e \<Rightarrow> [e] | Inr v \<Rightarrow> []) else []) = []"
    for i
    using nth [of i] by auto
  ultimately show "rejections ord outs = []"
    by (simp add: rejections_def)
qed

lemma rejections_subset: "e \<in> set (rejections ord outs) \<Longrightarrow> Inl e \<in> set outs"
  by (auto simp: rejections_def split: sum.splits if_splits)

lemma promise_all_fulfilled:
  assumes "\<forall>out\<in>set outs. \<exists>v. out = Inr v"
  shows "promise_all ord outs = Inr (map projr outs)"
proof -
  have "concat (map (\<lambda>out. case out of Inl e \<Rightarrow> [] | Inr v \<Rightarrow> [v]) outs) = map projr outs"
    using assms by (induction outs) auto
  then show ?thesis
    using assms rejections_Nil_iff [of ord outs] by (simp add: promise_all_def)
qed

lemma promise_all_rejected:
  assumes "Inl e \<in> set outs"
  shows "\<exists>e'. Inl e' \<in> set outs \<and> promise_all ord outs = Inl e'"
proof -
  from assms have "rejections ord outs \<noteq> []"
    using rejections_Nil_iff [of ord outs] by auto
  then obtain e' rest where r: "rejections ord outs = e' # rest"
    by (cases "rejections ord outs") auto
  then have "e' \<in> set (rejections ord outs)" by simp
  then have "Inl e' \<in> set outs" by (rule rejections_subset)
  with r show ?thesis by (auto simp: promise_all_def)
qed

text \<open>
  Claim C6, as the code has it. In both routes \<open>multiSearch\<close> runs one search per built
  query. In the paper route, when every search returns, the result is the concatenation of
  what they return, in query order; when one fails, \<open>multiSearch\<close> fails with the error
  of a failed search and returns no list. In the legal route the searches never fail, and
  the result is the concatenation of what they return followed by what the Google Scholar
  search returns.
\<close>

theorem multiSearch_all_or_fail:
  fixes apiKey api q analysis p
  defines "queries \<equiv> buildSearchQueries_papers q (paperSearchVariations analysis)"
  defines "outs \<equiv> fst (run_searches
                          (\<lambda>query. searchPapers apiKey api query
                                      (ceil_div (paperCount analysis) (length queries)))
                          queries p)"
  shows "length outs = length queries
     \<and> ((\<forall>out\<in>set outs. \<exists>v. out = Inr v) \<longrightarrow>
          fst (multiSearch_papers apiKey api ord q analysis p) = Inr (concat (map projr outs)))
     \<and> ((\<exists>e. Inl e \<in> set outs) \<longrightarrow>
          (\<exists>e. Inl e \<in> set outs \<and> fst (multiSearch_papers apiKey api ord q analysis p) = Inl e))
     \<and> fst (multiSearch k cl gs q' analysis' p')
         = concat (fst (run_searches
                          (\<lambda>query. searchLegalCases k cl query
                                      (ceil_div (caseCount analysis')
                                         (length (buildSearchQueries q' (searchVariations analysis')))))
                          (buildSearchQueries q' (searchVariations analysis')) p'))
           @ fst (searchGoogleScholarLegal gs q' (min 10 (caseCount analysis'))
                    (snd (run_searches
                          (\<lambda>query. searchLegalCases k cl query
                                      (ceil_div (caseCount analysis')
                                         (length (buildSearchQueries q' (searchVariations analysis')))))
                          (buildSearchQueries q' (searchVariations analysis')) p')))"
proof (intro conjI impI)
  have m: "fst (multiSearch_papers apiKey api ord q analysis p)
             = (case promise_all ord outs of Inl e \<Rightarrow> Inl e | Inr results \<Rightarrow> Inr (concat results))"
    by (simp add: multiSearch_papers_def outs_def queries_def Let_def case_prod_beta)
  show "length outs = length queries"
    by (simp add: outs_def run_searches_length)
  show "fst (multiSearch_papers apiKey api ord q analysis p) = Inr (concat (map projr outs))"
    if "\<forall>out\<in>set outs. \<exists>v. out = Inr v"
    using promise_all_fulfilled [OF that, of ord] by (simp add: m)
  show "\<exists>e. Inl e \<in> set outs \<and> fst (multiSearch_papers apiKey api ord q analysis p) = Inl e"
    if "\<exists>e. Inl e \<in> set outs"
  proof -
    from that obtain e where "Inl e \<in> set outs" ..
    from promise_all_rejected [OF this, of ord] obtain e'
      where "Inl e' \<in> set outs" "promise_all ord outs = Inl e'" by blast
    then show ?thesis by (auto simp: m)
  qed
  show "fst (multiSearch k cl gs q' analysis' p')
         = concat (fst (run_searches
                          (\<lambda>query. searchLegalCases k cl query
                                      (ceil_div (caseCount analysis')
                                         (length (buildSearchQueries q' (searchVariations analysis')))))
                          (buildSearchQueries q' (searchVariations analysis')) p'))
           @ fst (searchGoogleScholarLegal gs q' (min 10 (caseCount analysis'))
                    (snd (run_searches
                          (\<lambda>query. searchLegalCases k cl query
                                      (ceil_div (caseCount analysis')
                                         (length (buildSearchQueries q' (searchVariations analysis')))))
                          (buildSearchQueries q' (searchVariations analysis')) p')))"
    by (simp add: multiSearch_def Let_def case_prod_beta)
qed

lemma loop_eval: "searchPapers_loop (\<lambda>i. HttpStatus 500) 0 p = (Inl (Error ''API error: 500''), sleep 2000 (sleep 1000 p))"
  by (simp add: searchPapers_loop.simps maxRetries_def show_nat.simps digit_char_def)

theorem multiSearch_all_or_fail_witness:
  "fst (multiSearch_papers (Some ''key'') (\<lambda>q l i. HttpStatus 500) [0] ''x''
          \<lparr>paperCount = 15, paperSearchVariations = 1\<rparr> sample_proc)
     = Inl (Error ''API error: 500'')"
proof -
  have outs: "fst (run_searches
                 (\<lambda>query. searchPapers (Some ''key'') (\<lambda>q l i. HttpStatus 500) query
                    (ceil_div (paperCount \<lparr>paperCount = 15, paperSearchVariations = 1\<rparr>)
                       (length (buildSearchQueries_papers ''x''
                          (paperSearchVariations \<lparr>paperCount = 15, paperSearchVariations = 1\<rparr>)))))
                 (buildSearchQueries_papers ''x''
                    (paperSearchVariations \<lparr>paperCount = 15, paperSearchVariations = 1\<rparr>))
                 sample_proc)
          = [Inl (Error ''API error: 500'')]"
    by (simp add: buildSearchQueries_papers_def searchPapers_def truthy_def
        searchPapers_loop.simps maxRetries_def show_nat.simps digit_char_def)
  from multiSearch_all_or_fail [where apiKey = "Some ''key''" and api = "\<lambda>q l i. HttpStatus 500"
      and q = "''x''" and analysis = "\<lparr>paperCount = 15, paperSearchVariations = 1\<rparr>"
      and p = sample_proc and ord = "[0]"]
  show ?thesis unfolding outs by auto
qed

text \<open>
  In the legal route the result is not the concatenation of the fan-out searches alone:
  with no Court Listener key the one fan-out search returns nothing, and the result is
  the case found by Google Scholar.
\<close>

theorem multiSearch_google_counterexample:
  "fst (multiSearch None (\<lambda>q. HttpStatus 500) (\<lambda>q. Fetched [sample_case ''g'' None None]) ''x''
          \<lparr>caseCount = 10, searchVariations = 1\<rparr> sample_proc)
     = [sample_case ''g'' None None]
   \<and> concat (fst (run_searches
                (\<lambda>query. searchLegalCases None (\<lambda>q. HttpStatus 500) query 10)
                (buildSearchQueries ''x'' 1) sample_proc)) = []"
  by (simp add: multiSearch_def buildSearchQueries_def searchLegalCases_def
      searchGoogleScholarLegal_def give_up_def truthy_def ceil_div_def Let_def)

subsection \<open>State and the rate limit\<close>







section \<open>Properties of the endpoints\<close>

subsection \<open>Failing sources\<close>














subsection \<open>Order of the events\<close>

lemma response_checks_kind: "e \<in> set (response_checks r) \<Longrightarrow> is_response_check e"
  by (auto simp: response_checks_def Let_def split: if_splits)

lemma citation_events_kind:
  "e \<in> set (citation_events tokens) \<Longrightarrow> \<not> is_text e \<and> \<not> is_response_check e"
  by (auto simp: citation_events_def)

lemma response_check_not_text: "is_response_check e \<Longrightarrow> \<not> is_text e \<and> \<not> is_query_check e"
  by (cases e) simp_all

lemma texts_tailI:
  assumes "events = texts @ after" "\<forall>e\<in>set texts. is_text e"
    and "\<forall>e\<in>set after. \<not> is_text e \<and> \<not> is_query_check e"
  shows "\<exists>texts after. events = texts @ after
      \<and> (\<forall>e\<in>set texts. is_text e)
      \<and> (\<forall>e\<in>set after. \<not> is_text e \<and> \<not> is_query_check e)"
  using assms by blast

lemma lead_texts_tailI:
  assumes "events = before @ texts @ after"
    and "\<forall>e\<in>set before. \<not> is_text e \<and> \<not> is_response_check e"
    and "\<forall>e\<in>set texts. is_text e"
    and "\<forall>e\<in>set after. \<not> is_text e \<and> \<not> is_query_check e"
  shows "\<exists>before texts after. events = before @ texts @ after
      \<and> (\<forall>e\<in>set before. \<not> is_text e \<and> \<not> is_response_check e)
      \<and> (\<forall>e\<in>set texts. is_text e)
      \<and> (\<forall>e\<in>set after. \<not> is_text e \<and> \<not> is_query_check e)"
  using assms by blast

lemma generate_legal_shape:
  "\<exists>texts after. generate_legal env = texts @ after
      \<and> (\<forall>e\<in>set texts. is_text e)
      \<and> (\<forall>e\<in>set after. \<not> is_text e \<and> \<not> is_query_check e)"
proof (cases "truthy (openaiKey env)")
  case False
  then have "generate_legal env = [] @ [ErrorEvent ''OPENAI_API_KEY missing'']"
    by (simp add: generate_legal_def)
  then show ?thesis by (rule texts_tailI) simp_all
next
  case True
  show ?thesis
  proof (cases "completion env")
    case (Inl err)
    with True have "generate_legal env = [] @ [ErrorEvent (message err)]"
      by (simp add: generate_legal_def)
    then show ?thesis by (rule texts_tailI) simp_all
  next
    case (Inr r)
    obtain chunks failure where r: "r = (chunks, failure)" by (cases r)
    let ?contents = "chunk_contents chunks"
    show ?thesis
    proof (cases failure)
      case (Some err)
      with True Inr r
      have "generate_legal env = map TextChunk ?contents @ [ErrorEvent (message err)]"
        by (simp add: generate_legal_def Let_def)
      then show ?thesis by (rule texts_tailI) auto
    next
      case None
      show ?thesis
      proof (cases "?contents = []")
        case empty: True
        with True Inr r None
        have "generate_legal env
                = [TextChunk ''No response generated. Please try rephrasing your legal question.'']
                  @ [Complete]"
          by (simp add: generate_legal_def Let_def)
        then show ?thesis by (rule texts_tailI) simp_all
      next
        case False
        with True Inr r None
        have "generate_legal env
                = map TextChunk ?contents
                  @ ((if concat ?contents \<noteq> [] then response_checks (concat ?contents) else [])
                     @ [Complete])"
          by (simp add: generate_legal_def Let_def)
        moreover have "\<forall>e\<in>set (map TextChunk ?contents). is_text e" by auto
        moreover have "\<forall>e\<in>set ((if concat ?contents \<noteq> []
                                    then response_checks (concat ?contents) else []) @ [Complete]).
                         \<not> is_text e \<and> \<not> is_query_check e"
          by (auto dest!: response_checks_kind response_check_not_text split: if_splits)
        ultimately show ?thesis by (rule texts_tailI)
      qed
    qed
  qed
qed

lemma stream_legal_shape:
  "\<exists>before texts after. fst (stream_legal env query safety p) = before @ texts @ after
      \<and> (\<forall>e\<in>set before. \<not> is_text e \<and> \<not> is_response_check e)
      \<and> (\<forall>e\<in>set texts. is_text e)
      \<and> (\<forall>e\<in>set after. \<not> is_text e \<and> \<not> is_query_check e)"
proof -
  let ?analysis = "analyzeQuery query"
  let ?opening = "[Status (''Searching '' @ show_nat (caseCount ?analysis) @ '' legal cases across ''
                       @ show_nat (searchVariations ?analysis) @ '' queries...'')]
            @ (if warnings safety \<noteq> [] then [QueryWarning (warnings safety)] else [])"
  let ?found = "multiSearch (courtListenerKey env) (courtListener env) (googleScholar env)
              query ?analysis p"
  let ?selected = "selectOptimal (caseScore env) (fst ?found) (caseCount ?analysis)"
  let ?lead = "?opening @ citation_events (prepareCitations ?selected)
                 @ [Status (''Analyzing '' @ show_nat (length ?selected)
                              @ '' relevant legal cases with AI capabilities...''),
                    Status (''Applying emotional intelligence, bias detection, ''
                              @ ''and predictive analytics...'')]"
  have open_kind: "\<forall>e\<in>set ?opening. \<not> is_text e \<and> \<not> is_response_check e" by auto
  show ?thesis
  proof (cases "fst ?found = []")
    case True
    then have "fst (stream_legal env query safety p) = (?opening @ [NoCasesFound]) @ [] @ []"
      by (simp add: stream_legal_def Let_def case_prod_beta)
    moreover have "\<forall>e\<in>set (?opening @ [NoCasesFound]). \<not> is_text e \<and> \<not> is_response_check e"
      by auto
    ultimately show ?thesis by (rule lead_texts_tailI) simp_all
  next
    case False
    from generate_legal_shape [of env] obtain texts after
      where g: "generate_legal env = texts @ after"
        and t: "\<forall>e\<in>set texts. is_text e"
        and a: "\<forall>e\<in>set after. \<not> is_text e \<and> \<not> is_query_check e"
      by blast
    from False have "fst (stream_legal env query safety p) = ?lead @ generate_legal env"
      by (simp add: stream_legal_def Let_def case_prod_beta)
    then have "fst (stream_legal env query safety p) = ?lead @ texts @ after"
      by (simp only: g)
    moreover have "\<forall>e\<in>set ?lead. \<not> is_text e \<and> \<not> is_response_check e"
      by (auto dest: citation_events_kind)
    ultimately show ?thesis using t a by (rule lead_texts_tailI)
  qed
qed

text \<open>
  Claim C4, as the code has it. The check of the query comes before anything is shown: a
  query of critical risk is refused without a stream, and in a stream every query warning
  precedes every text event. The checks of the response come after the text: every
  response warning and quality note follows every text event. The events of a stream are
  a lead-in without text and without response checks, then the text events, then a tail
  without text and without query warnings.
\<close>

theorem safety_checks_order:
  "(truthy query \<and> riskLevel (analyzeQuerySafety (loadedPatterns env) (the query) None) = Critical
      \<longrightarrow> fst (POST env (Inr query) p)
            = Blocked (warnings (analyzeQuerySafety (loadedPatterns env) (the query) None))
                (recommendations (analyzeQuerySafety (loadedPatterns env) (the query) None)))
   \<and> (\<exists>before texts after.
         stream_events (fst (POST env body p)) = before @ texts @ after
         \<and> (\<forall>e\<in>set before. \<not> is_text e \<and> \<not> is_response_check e)
         \<and> (\<forall>e\<in>set texts. is_text e)
         \<and> (\<forall>e\<in>set after. \<not> is_text e \<and> \<not> is_query_check e))"
proof (intro conjI impI)
  show "fst (POST env (Inr query) p)
            = Blocked (warnings (analyzeQuerySafety (loadedPatterns env) (the query) None))
                (recommendations (analyzeQuerySafety (loadedPatterns env) (the query) None))"
    if "truthy query \<and> riskLevel (analyzeQuerySafety (loadedPatterns env) (the query) None) = Critical"
    using that by (simp add: POST_def Let_def)
  let ?P = "\<lambda>events. \<exists>before texts after. events = before @ texts @ after
         \<and> (\<forall>e\<in>set before. \<not> is_text e \<and> \<not> is_response_check e)
         \<and> (\<forall>e\<in>set texts. is_text e)
         \<and> (\<forall>e\<in>set after. \<not> is_text e \<and> \<not> is_query_check e)"
  have none: "?P []" by simp
  show "?P (stream_events (fst (POST env body p)))"
  proof (cases body)
    case (Inl err)
    then show ?thesis using none by (simp add: POST_def)
  next
    case (Inr q)
    show ?thesis
    proof (cases "truthy q \<and> riskLevel (analyzeQuerySafety (loadedPatterns env) (the q) None) \<noteq> Critical")
      case False
      then have "stream_events (fst (POST env body p)) = []"
        using Inr by (auto simp: POST_def Let_def)
      then show ?thesis using none by simp
    next
      case True
      then have "stream_events (fst (POST env body p))
                   = fst (stream_legal env (the q)
                            (analyzeQuerySafety (loadedPatterns env) (the q) None) p)"
        using Inr by (simp add: POST_def Let_def case_prod_beta)
      then show ?thesis using stream_legal_shape by simp
    qed
  qed
qed

lemma analyzeQuery_x: "analyzeQuery ''x'' = \<lparr>caseCount = 10, searchVariations = 1\<rparr>"
  by (simp add: analyzeQuery_def Let_def test_words_def word_at_def isWordChar_def
      first_char_def split_ws_def trim_def isWhiteSpace_def toLowerCase_def toLowerCase_char_def)

lemma response_checks_always:
  "response_checks ''always''
     = [ResponseWarning [''Potential bias detected in response''],
        QualityInfo [''Review response for balanced perspective and diverse viewpoints'']]"
  by (simp add: response_checks_def analyzeResponseSafety_def deduplicateCitations_def
      match_token_def detectBias_def detectMisinformation_def detectPrivacyIssues_def
      privacyPatterns_def rx_test_def exactly_def lit_def isWordChar_def first_char_def
      isDigit_def isAlnum_def isWhiteSpace_def toLowerCase_def toLowerCase_char_def Let_def)

lemma generate_legal_sample:
  "generate_legal sample_services
     = [TextChunk ''always'',
        ResponseWarning [''Potential bias detected in response''],
        QualityInfo [''Review response for balanced perspective and diverse viewpoints''],
        Complete]"
  by (simp add: generate_legal_def chunk_contents_def truthy_def response_checks_always Let_def)

lemma filter_lead:
  "\<forall>e\<in>set lead. \<not> is_text e \<and> \<not> is_response_check e \<Longrightarrow>
   filter text_or_response_check (lead @ rest) = filter text_or_response_check rest"
  by (simp add: text_or_response_check_def)

text \<open>
  The check of the response does not come before the text is sent: for a response that
  trips the bias check, the text event is in the stream before the warning.
\<close>

theorem response_check_after_text_counterexample:
  "filter text_or_response_check
     (stream_events (fst (POST sample_services (Inr (Some ''x'')) sample_proc)))
     = [TextChunk ''always'',
        ResponseWarning [''Potential bias detected in response''],
        QualityInfo [''Review response for balanced perspective and diverse viewpoints'']]"
proof -
  have q: "analyzeQuerySafety [sample_pattern ''fraud'' High] ''x'' None
             = \<lparr>riskLevel = Low, detectedPatterns = [], recommendations = [], warnings = []\<rparr>"
    by (simp add: analyzeQuerySafety_def Let_def or_else_def toLowerCase_def toLowerCase_char_def
        calculateOverallRisk_def)
  have m: "fst (multiSearch None (\<lambda>q. HttpStatus 500) (\<lambda>q. Fetched [sample_case ''g'' None None])
                  ''x'' \<lparr>caseCount = 10, searchVariations = 1\<rparr> sample_proc)
             = [sample_case ''g'' None None]"
    by (simp add: multiSearch_def buildSearchQueries_def searchLegalCases_def
        searchGoogleScholarLegal_def give_up_def truthy_def ceil_div_def Let_def)
  let ?lead = "[Status (''Searching '' @ show_nat 10 @ '' legal cases across '' @ show_nat 1
                        @ '' queries...'')]
             @ citation_events (prepareCitations
                 (selectOptimal (\<lambda>c. 0) [sample_case ''g'' None None] 10))
             @ [Status (''Analyzing ''
                          @ show_nat (length (selectOptimal (\<lambda>c. 0) [sample_case ''g'' None None] 10))
                          @ '' relevant legal cases with AI capabilities...''),
                Status (''Applying emotional intelligence, bias detection, ''
                          @ ''and predictive analytics...'')]"
  have ev: "stream_events (fst (POST sample_services (Inr (Some ''x'')) sample_proc))
          = ?lead @ generate_legal sample_services"
    using m by (simp add: POST_def stream_legal_def truthy_def q analyzeQuery_x Let_def
        case_prod_beta)
  have lead: "\<forall>e\<in>set ?lead. \<not> is_text e \<and> \<not> is_response_check e"
    by (auto dest: citation_events_kind)
  have "filter text_or_response_check
          (stream_events (fst (POST sample_services (Inr (Some ''x'')) sample_proc)))
        = filter text_or_response_check (generate_legal sample_services)"
    unfolding ev by (rule filter_lead [OF lead])
  also have "\<dots> = [TextChunk ''always'',
        ResponseWarning [''Potential bias detected in response''],
        QualityInfo [''Review response for balanced perspective and diverse viewpoints'']]"
    by (simp add: generate_legal_sample text_or_response_check_def)
  finally show ?thesis .
qed

theorem safety_checks_order_witness:
  "fst (POST (sample_services\<lparr>loadedPatterns := [sample_pattern ''bomb'' Critical]\<rparr>)
          (Inr (Some ''bomb'')) sample_proc)
     = Blocked [''CRITICAL: Detected high-risk pattern '' @ [CHR 0x22] @ ''bomb'' @ [CHR 0x22]
                  @ '' - bias risk'']
         [''Review by counsel'']"
proof -
  have q: "analyzeQuerySafety [sample_pattern ''bomb'' Critical] ''bomb'' None
             = \<lparr>riskLevel = Critical, detectedPatterns = [sample_pattern ''bomb'' Critical],
                recommendations = [''Review by counsel''],
                warnings = [''CRITICAL: Detected high-risk pattern '' @ [CHR 0x22] @ ''bomb''
                              @ [CHR 0x22] @ '' - bias risk'']\<rparr>"
    by (simp add: analyzeQuerySafety_def Let_def or_else_def toLowerCase_def toLowerCase_char_def
        calculateOverallRisk_def severityMap_def pattern_warning_def)
  have h: "truthy (Some ''bomb'')
           \<and> riskLevel (analyzeQuerySafety
                  (loadedPatterns (sample_services\<lparr>loadedPatterns := [sample_pattern ''bomb'' Critical]\<rparr>))
                  (the (Some ''bomb'')) None) = Critical"
    by (simp add: truthy_def q)
  from safety_checks_order [THEN conjunct1, rule_format, OF h, of sample_proc]
  show ?thesis by (simp add: q)
qed

end
